theory Spec2Isabelle
  imports Main "HOL-Library.Word" "HOL-Library.Product_Lexorder" "HOL-Library.Extended_Nat"
begin

section \<open>JavaScript strings\<close>

text \<open>
  A JavaScript string is a sequence of UTF-16 code units. The regular expressions of the
  suppression parser mention the em dash (U+2014) and the classes \<^verbatim>\<open>\s\<close> and \<^verbatim>\<open>.\<close>, whose
  members lie outside Latin-1, so a code unit is a 16-bit word rather than a \<^typ>\<open>char\<close>.
  \<open>js\<close> turns an ASCII literal into such a string.
\<close>

type_synonym jschar = "16 word"
type_synonym jsstring = "jschar list"

definition js :: "string \<Rightarrow> jsstring" where
  "js s = map of_char s"

text \<open>\<^verbatim>\<open>s.startsWith(p)\<close>.\<close>

definition startsWith :: "jsstring \<Rightarrow> jsstring \<Rightarrow> bool" where
  "startsWith s p = (take (length p) s = p)"

text \<open>\<^verbatim>\<open>s.split(c)\<close> for a separator \<open>c\<close> of one code unit; the empty string splits to
  one empty segment.\<close>

fun split :: "jsstring \<Rightarrow> jschar \<Rightarrow> jsstring list" where
  "split [] c = [[]]"
| "split (x # xs) c =
     (if x = c then [] # split xs c
      else (case split xs c of
              [] \<Rightarrow> [[x]]
            | seg # segs \<Rightarrow> (x # seg) # segs))"

text \<open>\<^verbatim>\<open>s.indexOf(c)\<close> for a pattern \<open>c\<close> of one code unit: the first position, or \<open>-1\<close>.\<close>

fun indexOf :: "jsstring \<Rightarrow> jschar \<Rightarrow> int" where
  "indexOf [] c = -1"
| "indexOf (x # xs) c =
     (if x = c then 0
      else (let i = indexOf xs c in if i = -1 then -1 else i + 1))"

text \<open>\<^verbatim>\<open>s.slice(a, b)\<close> and \<^verbatim>\<open>s.slice(a)\<close> for indices in range (the only use the source
  makes of them): negative indices, which count from the end, are written out.\<close>

definition slice_index :: "jsstring \<Rightarrow> int \<Rightarrow> nat" where
  "slice_index s i = (if i < 0 then nat (max 0 (int (length s) + i)) else min (nat i) (length s))"

definition slice :: "jsstring \<Rightarrow> int \<Rightarrow> int \<Rightarrow> jsstring" where
  "slice s a b = (let i = slice_index s a; j = slice_index s b in take (j - i) (drop i s))"

definition slice_from :: "jsstring \<Rightarrow> int \<Rightarrow> jsstring" where
  "slice_from s a = drop (slice_index s a) s"

section \<open>Import resolver: package-name extraction\<close>

text \<open>
  \<^verbatim>\<open>extractPackageName(source)\<close>; \<open>None\<close> is \<^verbatim>\<open>undefined\<close>. The code units are
  \<open>0x2E\<close> for the dot, \<open>0x2F\<close> for the slash and \<open>0x40\<close> for the at sign.
\<close>

definition extractPackageName :: "jsstring \<Rightarrow> jsstring option" where
  "extractPackageName source =
     (if startsWith source [0x2E] \<or> startsWith source [0x2F] then None
      else if startsWith source [0x40] then
        (let parts = split source 0x2F in
         if length parts < 2 then None
         else Some (parts ! 0 @ [0x2F] @ parts ! 1))
      else
        (let slashIdx = indexOf source 0x2F in
         if slashIdx = -1 then Some source else Some (slice source 0 slashIdx)))"

text \<open>
  The specification's wording of the same function, for comparison: the package is the first
  two slash-delimited segments of a source that starts with an at sign, and the first segment
  otherwise. \<open>join\<close> is \<^verbatim>\<open>Array.prototype.join\<close>.
\<close>

fun join :: "jsstring list \<Rightarrow> jsstring \<Rightarrow> jsstring" where
  "join [] sep = []"
| "join [x] sep = x"
| "join (x # y # ys) sep = x @ sep @ join (y # ys) sep"

definition first_segments :: "nat \<Rightarrow> jsstring \<Rightarrow> jsstring" where
  "first_segments n s = join (take n (split s 0x2F)) [0x2F]"

definition spec_extractPackageName :: "jsstring \<Rightarrow> jsstring option" where
  "spec_extractPackageName s =
     (if startsWith s [0x2E] \<or> startsWith s [0x2F] then None
      else if startsWith s [0x40] then Some (first_segments 2 s)
      else Some (first_segments 1 s))"


section \<open>Findings and inline suppressions\<close>

text \<open>\<^verbatim>\<open>ViolationKind\<close>, and the kind of a suppression, which is a violation kind or the
  string \<^verbatim>\<open>"*"\<close>.\<close>

datatype ViolationKind =
  DeprecatedApi | RemovedApi | FutureApi | WrongArity | WrongParam | UnknownExport

datatype SuppressionKind = AnyKind | Kind ViolationKind

text \<open>\<^verbatim>\<open>InlineSuppression\<close>. Line numbers are JavaScript numbers; the model takes the
  integers among them.\<close>

record InlineSuppression =
  sup_kind :: SuppressionKind
  sup_reason :: "jsstring option"
  startLine :: int
  endLine :: int

text \<open>\<^verbatim>\<open>isLineSuppressed(line, kind, suppressions)\<close>: the \<^verbatim>\<open>for\<close> loop, with
  \<^verbatim>\<open>continue\<close> as the recursive call on the rest of the list.\<close>

fun isLineSuppressed :: "int \<Rightarrow> ViolationKind \<Rightarrow> InlineSuppression list \<Rightarrow> InlineSuppression option" where
  "isLineSuppressed line kind [] = None"
| "isLineSuppressed line kind (s # sups) =
     (if line < startLine s \<or> line > endLine s then isLineSuppressed line kind sups
      else if sup_kind s = AnyKind \<or> sup_kind s = Kind kind then Some s
      else isLineSuppressed line kind sups)"

text \<open>The specification's wording: a suppression covers a finding when its closed range
  contains the line and its kind is \<^verbatim>\<open>*\<close> or the finding's kind.\<close>

definition covers :: "int \<Rightarrow> ViolationKind \<Rightarrow> InlineSuppression \<Rightarrow> bool" where
  "covers line kind s =
     (startLine s \<le> line \<and> line \<le> endLine s \<and> (sup_kind s = AnyKind \<or> sup_kind s = Kind kind))"

section \<open>Authority store\<close>

subsection \<open>The semver module\<close>

text \<open>
  The store calls six functions of the third-party \<^verbatim>\<open>semver\<close> package, which is no part of
  the repository. They are taken as parameters. \<open>'v\<close> is the comparable form that
  \<^verbatim>\<open>semver.coerce\<close> produces; the package compares such values by a total order, so \<open>'v\<close> is
  a linear order and \<^verbatim>\<open>lt\<close>, \<^verbatim>\<open>gt\<close>, \<^verbatim>\<open>gte\<close> are its comparisons. \<^verbatim>\<open>coerce\<close>
  returns \<^verbatim>\<open>null\<close> (\<open>None\<close>) for a string it cannot read, \<^verbatim>\<open>satisfies\<close> returns
  a boolean, and \<^verbatim>\<open>minVersion\<close> returns a version or \<^verbatim>\<open>null\<close>, or throws on a range it
  cannot read.
\<close>

datatype error = TypeError

record 'v semver =
  coerce :: "jsstring \<Rightarrow> 'v option"
  satisfies :: "'v \<Rightarrow> jsstring \<Rightarrow> bool"
  minVersion :: "jsstring \<Rightarrow> error + 'v option"

definition lt :: "'v::linorder \<Rightarrow> 'v \<Rightarrow> bool" where
  "lt a b = (a < b)"

definition gt :: "'v::linorder \<Rightarrow> 'v \<Rightarrow> bool" where
  "gt a b = (a > b)"

definition gte :: "'v::linorder \<Rightarrow> 'v \<Rightarrow> bool" where
  "gte a b = (a \<ge> b)"

subsection \<open>Authority data\<close>

record ParameterSpec =
  param_name :: jsstring
  required :: bool
  description :: "jsstring option"

record SignatureSpec =
  sig_since :: jsstring
  until :: "jsstring option"
  minArity :: nat
  maxArity :: enat
  params :: "ParameterSpec list"

record ReplacementRef =
  repl_package :: jsstring
  repl_export :: jsstring
  migrationHint :: jsstring

record DeprecationEntry =
  dep_since :: jsstring
  removedIn :: "jsstring option"
  message :: jsstring
  replacement :: "ReplacementRef option"

datatype ApiKind = Function | Component | Type | Constant | Class | Hook

record ApiSpec =
  spec_package :: jsstring
  spec_export :: jsstring
  spec_kind :: ApiKind
  availableIn :: jsstring
  signatures :: "SignatureSpec list"
  deprecations :: "DeprecationEntry list"
  docsUrl :: "jsstring option"

record ResolvedApiSpec =
  spec :: ApiSpec
  activeSignature :: "SignatureSpec option"
  activeDeprecation :: "DeprecationEntry option"
  available :: bool
  isFuture :: bool

text \<open>The fields of \<^verbatim>\<open>InMemoryAuthorityStore\<close>: the map from \<^verbatim>\<open>"package/export"\<close> to
  the specification, the covered packages in insertion order, the content hash and the data
  version.\<close>

record InMemoryAuthorityStore =
  specs :: "jsstring \<rightharpoonup> ApiSpec"
  packages :: "jsstring list"
  store_hash :: jsstring
  store_version :: jsstring

subsection \<open>Version resolution helpers\<close>

text \<open>A string in a condition is true when it is not empty.\<close>

definition truthy :: "jsstring \<Rightarrow> bool" where
  "truthy s = (s \<noteq> [])"

definition isAvailable :: "('v::linorder) semver \<Rightarrow> ApiSpec \<Rightarrow> jsstring \<Rightarrow> bool" where
  "isAvailable sv sp version =
     (case coerce sv version of
        None \<Rightarrow> False
      | Some coerced \<Rightarrow> satisfies sv coerced (availableIn sp))"

definition isFutureApi :: "('v::linorder) semver \<Rightarrow> ApiSpec \<Rightarrow> jsstring \<Rightarrow> error + bool" where
  "isFutureApi sv sp version =
     (case coerce sv version of
        None \<Rightarrow> Inr False
      | Some coerced \<Rightarrow>
          (case minVersion sv (availableIn sp) of
             Inl e \<Rightarrow> Inl e
           | Inr None \<Rightarrow> Inr False
           | Inr (Some minVer) \<Rightarrow> Inr (lt coerced minVer)))"

text \<open>The loop of \<^verbatim>\<open>findActiveSignature\<close> over \<^verbatim>\<open>spec.signatures\<close>, with the variable
  \<^verbatim>\<open>best\<close> as an accumulator.\<close>

fun signature_loop ::
  "('v::linorder) semver \<Rightarrow> 'v \<Rightarrow> SignatureSpec list \<Rightarrow> SignatureSpec option \<Rightarrow> SignatureSpec option" where
  "signature_loop sv coerced [] best = best"
| "signature_loop sv coerced (sig # sigs) best =
     (case coerce sv (sig_since sig) of
        None \<Rightarrow> signature_loop sv coerced sigs best
      | Some sinceSemver \<Rightarrow>
          if lt coerced sinceSemver then signature_loop sv coerced sigs best
          else if (case until sig of
                     None \<Rightarrow> False
                   | Some u \<Rightarrow> truthy u \<and>
                       (case coerce sv u of
                          None \<Rightarrow> False
                        | Some untilSemver \<Rightarrow> gte coerced untilSemver))
          then signature_loop sv coerced sigs best
          else if (case best of
                     None \<Rightarrow> True
                   | Some b \<Rightarrow>
                       (case coerce sv (sig_since b) of
                          None \<Rightarrow> True
                        | Some bestSince \<Rightarrow> gt sinceSemver bestSince))
          then signature_loop sv coerced sigs (Some sig)
          else signature_loop sv coerced sigs best)"

definition findActiveSignature ::
  "('v::linorder) semver \<Rightarrow> ApiSpec \<Rightarrow> jsstring \<Rightarrow> SignatureSpec option" where
  "findActiveSignature sv sp version =
     (case coerce sv version of
        None \<Rightarrow> None
      | Some coerced \<Rightarrow> signature_loop sv coerced (signatures sp) None)"

text \<open>The loop of \<^verbatim>\<open>findActiveDeprecation\<close>, which returns from inside the loop.\<close>

fun deprecation_loop ::
  "('v::linorder) semver \<Rightarrow> 'v \<Rightarrow> DeprecationEntry list \<Rightarrow> DeprecationEntry option" where
  "deprecation_loop sv coerced [] = None"
| "deprecation_loop sv coerced (dep # deps) =
     (case coerce sv (dep_since dep) of
        None \<Rightarrow> deprecation_loop sv coerced deps
      | Some sinceSemver \<Rightarrow>
          if lt coerced sinceSemver then deprecation_loop sv coerced deps
          else Some dep)"

definition findActiveDeprecation ::
  "('v::linorder) semver \<Rightarrow> ApiSpec \<Rightarrow> jsstring \<Rightarrow> DeprecationEntry option" where
  "findActiveDeprecation sv sp version =
     (case coerce sv version of
        None \<Rightarrow> None
      | Some coerced \<Rightarrow> deprecation_loop sv coerced (deprecations sp))"

subsection \<open>The query\<close>

text \<open>
  \<^verbatim>\<open>getApiSpec(packageName, exportName, installedVersion)\<close>. The result is \<open>Inl\<close> when
  \<^verbatim>\<open>semver.minVersion\<close> throws, \<open>Inr None\<close> for \<^verbatim>\<open>undefined\<close>. \<^verbatim>\<open>isFutureApi\<close> is
  called only when the symbol is not available, as \<^verbatim>\<open>&&\<close> evaluates.
\<close>

definition getApiSpec ::
  "('v::linorder) semver \<Rightarrow> InMemoryAuthorityStore \<Rightarrow> jsstring \<Rightarrow> jsstring \<Rightarrow> jsstring
     \<Rightarrow> error + ResolvedApiSpec option" where
  "getApiSpec sv store packageName exportName installedVersion =
     (let key = packageName @ [0x2F] @ exportName in
      case specs store key of
        None \<Rightarrow> Inr None
      | Some sp \<Rightarrow>
          (let avail = isAvailable sv sp installedVersion in
           case (if avail then Inr False else isFutureApi sv sp installedVersion) of
             Inl e \<Rightarrow> Inl e
           | Inr future \<Rightarrow>
               Inr (Some \<lparr> spec = sp,
                           activeSignature = findActiveSignature sv sp installedVersion,
                           activeDeprecation = findActiveDeprecation sv sp installedVersion,
                           available = avail,
                           isFuture = future \<rparr>)))"

subsection \<open>The specification's wording of the active signature and deprecation\<close>

text \<open>
  A signature is applicable at the coerced version \<open>c\<close> when its \<^verbatim>\<open>since\<close> coerces to a
  version at most \<open>c\<close> and its \<^verbatim>\<open>until\<close>, when present, not empty and coercible, is above
  \<open>c\<close>: the three tests that let an iteration of the loop reach the assignment to
  \<^verbatim>\<open>best\<close>. \<open>since_le\<close> compares two signatures by their coerced \<^verbatim>\<open>since\<close>, and a
  signature is the newest applicable one when no applicable signature has a greater
  \<^verbatim>\<open>since\<close>.
\<close>

definition applicable :: "('v::linorder) semver \<Rightarrow> 'v \<Rightarrow> SignatureSpec \<Rightarrow> bool" where
  "applicable sv c sig =
     (case coerce sv (sig_since sig) of
        None \<Rightarrow> False
      | Some s \<Rightarrow> s \<le> c \<and>
          (case until sig of
             None \<Rightarrow> True
           | Some u \<Rightarrow> u = [] \<or> (case coerce sv u of None \<Rightarrow> True | Some us \<Rightarrow> c < us)))"

definition since_le :: "('v::linorder) semver \<Rightarrow> SignatureSpec \<Rightarrow> SignatureSpec \<Rightarrow> bool" where
  "since_le sv a b =
     (case (coerce sv (sig_since a), coerce sv (sig_since b)) of
        (Some x, Some y) \<Rightarrow> x \<le> y
      | _ \<Rightarrow> False)"

definition newest_applicable :: "('v::linorder) semver \<Rightarrow> 'v \<Rightarrow> SignatureSpec list \<Rightarrow> SignatureSpec \<Rightarrow> bool" where
  "newest_applicable sv c sigs sig =
     (applicable sv c sig \<and> (\<forall>other \<in> set sigs. applicable sv c other \<longrightarrow> since_le sv other sig))"


text \<open>The specification breaks a tie between signatures of the same greatest \<^verbatim>\<open>since\<close>
  in favour of the last in declaration order.\<close>

definition spec_activeSignature ::
  "('v::linorder) semver \<Rightarrow> 'v \<Rightarrow> SignatureSpec list \<Rightarrow> SignatureSpec option" where
  "spec_activeSignature sv c sigs = find (newest_applicable sv c sigs) (rev sigs)"

text \<open>A deprecation is announced by the coerced version \<open>c\<close> when its \<^verbatim>\<open>since\<close> coerces to
  a version at most \<open>c\<close>. The specification takes the announced entry with the greatest
  \<^verbatim>\<open>since\<close>, the most recent one.\<close>

definition announced :: "('v::linorder) semver \<Rightarrow> 'v \<Rightarrow> DeprecationEntry \<Rightarrow> bool" where
  "announced sv c dep =
     (case coerce sv (dep_since dep) of
        None \<Rightarrow> False
      | Some s \<Rightarrow> s \<le> c)"

definition dep_since_le :: "('v::linorder) semver \<Rightarrow> DeprecationEntry \<Rightarrow> DeprecationEntry \<Rightarrow> bool" where
  "dep_since_le sv a b =
     (case (coerce sv (dep_since a), coerce sv (dep_since b)) of
        (Some x, Some y) \<Rightarrow> x \<le> y
      | _ \<Rightarrow> False)"

definition latest_announced ::
  "('v::linorder) semver \<Rightarrow> 'v \<Rightarrow> DeprecationEntry list \<Rightarrow> DeprecationEntry \<Rightarrow> bool" where
  "latest_announced sv c deps dep =
     (announced sv c dep \<and> (\<forall>other \<in> set deps. announced sv c other \<longrightarrow> dep_since_le sv other dep))"

definition spec_activeDeprecation ::
  "('v::linorder) semver \<Rightarrow> 'v \<Rightarrow> DeprecationEntry list \<Rightarrow> DeprecationEntry option" where
  "spec_activeDeprecation sv c deps = find (latest_announced sv c deps) (rev deps)"

subsection \<open>A semver module and a store to run the queries on\<close>

text \<open>
  An instance of the semver parameters on the strings the examples use: a version is one to
  three dot-separated decimal numbers, missing parts being zero, and a range is \<^verbatim>\<open>>=\<close>
  followed by a version. On these strings it returns what the \<^verbatim>\<open>semver\<close> package returns;
  every other string is not coercible, and every other range is invalid. Versions are
  triples in lexicographic order.
\<close>

definition isDigit :: "jschar \<Rightarrow> bool" where
  "isDigit ch = (0x30 \<le> ch \<and> ch \<le> 0x39)"

definition digits_value :: "jsstring \<Rightarrow> nat" where
  "digits_value s = foldl (\<lambda>n ch. 10 * n + unat (ch - 0x30)) 0 s"

definition parse_number :: "jsstring \<Rightarrow> nat option" where
  "parse_number s = (if s \<noteq> [] \<and> list_all isDigit s then Some (digits_value s) else None)"

definition demo_coerce :: "jsstring \<Rightarrow> (nat \<times> nat \<times> nat) option" where
  "demo_coerce s =
     (case map parse_number (split s 0x2E) of
        [Some a] \<Rightarrow> Some (a, 0, 0)
      | [Some a, Some b] \<Rightarrow> Some (a, b, 0)
      | [Some a, Some b, Some c] \<Rightarrow> Some (a, b, c)
      | _ \<Rightarrow> None)"

definition demo_range :: "jsstring \<Rightarrow> (nat \<times> nat \<times> nat) option" where
  "demo_range r = (if startsWith r (js ''>='') then demo_coerce (drop 2 r) else None)"

definition demo_semver :: "(nat \<times> nat \<times> nat) semver" where
  "demo_semver =
     \<lparr> coerce = demo_coerce,
       satisfies = (\<lambda>v r. case demo_range r of None \<Rightarrow> False | Some lo \<Rightarrow> lo \<le> v),
       minVersion = (\<lambda>r. case demo_range r of None \<Rightarrow> Inl TypeError | Some lo \<Rightarrow> Inr (Some lo)) \<rparr>"

definition sig_one :: SignatureSpec where
  "sig_one = \<lparr> sig_since = js ''16.0.0'', until = None, minArity = 1, maxArity = 1, params = [] \<rparr>"

definition sig_two :: SignatureSpec where
  "sig_two = \<lparr> sig_since = js ''16.0.0'', until = None, minArity = 1, maxArity = 2, params = [] \<rparr>"

definition dep_announced :: DeprecationEntry where
  "dep_announced =
     \<lparr> dep_since = js ''16.13.0'', removedIn = None,
       message = js ''deprecated'', replacement = None \<rparr>"

definition dep_removal :: DeprecationEntry where
  "dep_removal =
     \<lparr> dep_since = js ''18.0.0'', removedIn = Some (js ''19.0.0''),
       message = js ''removed in 19'', replacement = None \<rparr>"

definition spec_createFactory :: ApiSpec where
  "spec_createFactory =
     \<lparr> spec_package = js ''react'', spec_export = js ''createFactory'', spec_kind = Function,
       availableIn = js ''>=16.0.0'', signatures = [sig_one, sig_two],
       deprecations = [dep_announced, dep_removal], docsUrl = None \<rparr>"

definition spec_useId :: ApiSpec where
  "spec_useId =
     \<lparr> spec_package = js ''react'', spec_export = js ''useId'', spec_kind = Hook,
       availableIn = js ''>=18.0.0'',
       signatures = [\<lparr> sig_since = js ''18.0.0'', until = None, minArity = 0, maxArity = 0, params = [] \<rparr>],
       deprecations = [], docsUrl = None \<rparr>"

definition demo_store :: InMemoryAuthorityStore where
  "demo_store =
     \<lparr> specs = map_of [(js ''react/createFactory'', spec_createFactory),
                       (js ''react/useId'', spec_useId)],
       packages = [js ''react''],
       store_hash = js ''00'',
       store_version = js ''0.0.0-test'' \<rparr>"

subsection \<open>The query as a call on the store object\<close>

text \<open>
  The functions above give what a call returns. A call in JavaScript may also write: the
  method \<^verbatim>\<open>getApiSpec\<close> runs on the store object \<^verbatim>\<open>this\<close>, and the \<^verbatim>\<open>semver\<close> module
  may keep state of its own between calls, a cache for one. To state what a query leaves behind, the method and its helpers are translated
  a second time, statement by statement, with that state passed along. The state is the
  store object and the state of the \<^verbatim>\<open>semver\<close> module, of any type \<open>'w\<close>.
\<close>

record 'w world =
  store_object :: InMemoryAuthorityStore
  semver_state :: 'w

text \<open>
  A function of the \<^verbatim>\<open>semver\<close> module takes the state of the module and returns its answer
  and the state it leaves; the answer may depend on the state. The module is handed strings
  and versions only, never the store object, so that it runs on its own state.
\<close>

record ('v, 'w) semver_module =
  coerce_call :: "jsstring \<Rightarrow> 'w \<Rightarrow> 'v option \<times> 'w"
  satisfies_call :: "'v \<Rightarrow> jsstring \<Rightarrow> 'w \<Rightarrow> bool \<times> 'w"
  minVersion_call :: "jsstring \<Rightarrow> 'w \<Rightarrow> (error + 'v option) \<times> 'w"

definition in_semver :: "('w \<Rightarrow> 'a \<times> 'w) \<Rightarrow> 'w world \<Rightarrow> 'a \<times> 'w world" where
  "in_semver f w = (case f (semver_state w) of (a, s) \<Rightarrow> (a, w\<lparr> semver_state := s \<rparr>))"

definition isAvailable_call ::
  "('v::linorder, 'w) semver_module \<Rightarrow> ApiSpec \<Rightarrow> jsstring \<Rightarrow> 'w world \<Rightarrow> bool \<times> 'w world" where
  "isAvailable_call sv sp version w =
     (case in_semver (coerce_call sv version) w of
        (None, w1) \<Rightarrow> (False, w1)
      | (Some coerced, w1) \<Rightarrow> in_semver (satisfies_call sv coerced (availableIn sp)) w1)"

definition isFutureApi_call ::
  "('v::linorder, 'w) semver_module \<Rightarrow> ApiSpec \<Rightarrow> jsstring \<Rightarrow> 'w world
     \<Rightarrow> (error + bool) \<times> 'w world" where
  "isFutureApi_call sv sp version w =
     (case in_semver (coerce_call sv version) w of
        (None, w1) \<Rightarrow> (Inr False, w1)
      | (Some coerced, w1) \<Rightarrow>
          (case in_semver (minVersion_call sv (availableIn sp)) w1 of
             (Inl e, w2) \<Rightarrow> (Inl e, w2)
           | (Inr None, w2) \<Rightarrow> (Inr False, w2)
           | (Inr (Some minVer), w2) \<Rightarrow> (Inr (lt coerced minVer), w2)))"

text \<open>The test on \<^verbatim>\<open>sig.until\<close> in the loop of \<^verbatim>\<open>findActiveSignature\<close>: true when the
  loop continues with the next signature.\<close>

definition until_reached_call ::
  "('v::linorder, 'w) semver_module \<Rightarrow> 'v \<Rightarrow> SignatureSpec \<Rightarrow> 'w world \<Rightarrow> bool \<times> 'w world" where
  "until_reached_call sv coerced sig w =
     (case until sig of
        None \<Rightarrow> (False, w)
      | Some u \<Rightarrow>
          if truthy u then
            (case in_semver (coerce_call sv u) w of
               (None, w1) \<Rightarrow> (False, w1)
             | (Some untilSemver, w1) \<Rightarrow> (gte coerced untilSemver, w1))
          else (False, w))"

text \<open>
  The condition \<^verbatim>\<open>!best || !semver.coerce(best.since) || semver.gt(sinceSemver,
  semver.coerce(best.since)!)\<close>. It coerces \<^verbatim>\<open>best.since\<close> a second time when the first
  answer is a version; \<^verbatim>\<open>semver.gt\<close> throws a \<^verbatim>\<open>TypeError\<close> when the second answer is
  \<^verbatim>\<open>null\<close>.
\<close>

definition replaces_best_call ::
  "('v::linorder, 'w) semver_module \<Rightarrow> 'v \<Rightarrow> SignatureSpec option \<Rightarrow> 'w world
     \<Rightarrow> (error + bool) \<times> 'w world" where
  "replaces_best_call sv sinceSemver best w =
     (case best of
        None \<Rightarrow> (Inr True, w)
      | Some b \<Rightarrow>
          (case in_semver (coerce_call sv (sig_since b)) w of
             (None, w1) \<Rightarrow> (Inr True, w1)
           | (Some bestFirst, w1) \<Rightarrow>
               (case in_semver (coerce_call sv (sig_since b)) w1 of
                  (None, w2) \<Rightarrow> (Inl TypeError, w2)
                | (Some bestSince, w2) \<Rightarrow> (Inr (gt sinceSemver bestSince), w2))))"

fun signature_loop_call ::
  "('v::linorder, 'w) semver_module \<Rightarrow> 'v \<Rightarrow> SignatureSpec list \<Rightarrow> SignatureSpec option
     \<Rightarrow> 'w world \<Rightarrow> (error + SignatureSpec option) \<times> 'w world" where
  "signature_loop_call sv coerced [] best w = (Inr best, w)"
| "signature_loop_call sv coerced (sig # sigs) best w =
     (case in_semver (coerce_call sv (sig_since sig)) w of
        (None, w1) \<Rightarrow> signature_loop_call sv coerced sigs best w1
      | (Some sinceSemver, w1) \<Rightarrow>
          if lt coerced sinceSemver then signature_loop_call sv coerced sigs best w1
          else
            (case until_reached_call sv coerced sig w1 of
               (True, w2) \<Rightarrow> signature_loop_call sv coerced sigs best w2
             | (False, w2) \<Rightarrow>
                 (case replaces_best_call sv sinceSemver best w2 of
                    (Inl e, w3) \<Rightarrow> (Inl e, w3)
                  | (Inr True, w3) \<Rightarrow> signature_loop_call sv coerced sigs (Some sig) w3
                  | (Inr False, w3) \<Rightarrow> signature_loop_call sv coerced sigs best w3)))"

definition findActiveSignature_call ::
  "('v::linorder, 'w) semver_module \<Rightarrow> ApiSpec \<Rightarrow> jsstring \<Rightarrow> 'w world
     \<Rightarrow> (error + SignatureSpec option) \<times> 'w world" where
  "findActiveSignature_call sv sp version w =
     (case in_semver (coerce_call sv version) w of
        (None, w1) \<Rightarrow> (Inr None, w1)
      | (Some coerced, w1) \<Rightarrow> signature_loop_call sv coerced (signatures sp) None w1)"

fun deprecation_loop_call ::
  "('v::linorder, 'w) semver_module \<Rightarrow> 'v \<Rightarrow> DeprecationEntry list \<Rightarrow> 'w world
     \<Rightarrow> DeprecationEntry option \<times> 'w world" where
  "deprecation_loop_call sv coerced [] w = (None, w)"
| "deprecation_loop_call sv coerced (dep # deps) w =
     (case in_semver (coerce_call sv (dep_since dep)) w of
        (None, w1) \<Rightarrow> deprecation_loop_call sv coerced deps w1
      | (Some sinceSemver, w1) \<Rightarrow>
          if lt coerced sinceSemver then deprecation_loop_call sv coerced deps w1
          else (Some dep, w1))"

definition findActiveDeprecation_call ::
  "('v::linorder, 'w) semver_module \<Rightarrow> ApiSpec \<Rightarrow> jsstring \<Rightarrow> 'w world
     \<Rightarrow> DeprecationEntry option \<times> 'w world" where
  "findActiveDeprecation_call sv sp version w =
     (case in_semver (coerce_call sv version) w of
        (None, w1) \<Rightarrow> (None, w1)
      | (Some coerced, w1) \<Rightarrow> deprecation_loop_call sv coerced (deprecations sp) w1)"

text \<open>
  The method. \<^verbatim>\<open>this.specs.get(key)\<close> reads the map of the store object in the state; an
  exception leaves the state as it is where it is thrown.
\<close>

definition getApiSpec_call ::
  "('v::linorder, 'w) semver_module \<Rightarrow> jsstring \<Rightarrow> jsstring \<Rightarrow> jsstring \<Rightarrow> 'w world
     \<Rightarrow> (error + ResolvedApiSpec option) \<times> 'w world" where
  "getApiSpec_call sv packageName exportName installedVersion w =
     (let key = packageName @ [0x2F] @ exportName in
      case specs (store_object w) key of
        None \<Rightarrow> (Inr None, w)
      | Some sp \<Rightarrow>
          (case isAvailable_call sv sp installedVersion w of
             (avail, w1) \<Rightarrow>
               (case (if avail then (Inr False, w1) else isFutureApi_call sv sp installedVersion w1) of
                  (Inl e, w2) \<Rightarrow> (Inl e, w2)
                | (Inr future, w2) \<Rightarrow>
                    (case findActiveSignature_call sv sp installedVersion w2 of
                       (Inl e, w3) \<Rightarrow> (Inl e, w3)
                     | (Inr sig, w3) \<Rightarrow>
                         (case findActiveDeprecation_call sv sp installedVersion w3 of
                            (dep, w4) \<Rightarrow>
                              (Inr (Some \<lparr> spec = sp,
                                           activeSignature = sig,
                                           activeDeprecation = dep,
                                           available = avail,
                                           isFuture = future \<rparr>), w4))))))"

text \<open>
  The \<^verbatim>\<open>semver\<close> module is stateless in its answers when each of its functions answers the
  same for the same arguments, whatever the state of the module. \<open>answers sv s\<close> are the
  answers of the module in the state \<open>s\<close>, as functions of the arguments alone.
\<close>

definition stateless :: "('v, 'w) semver_module \<Rightarrow> bool" where
  "stateless sv \<longleftrightarrow>
     (\<forall>x a b. fst (coerce_call sv x a) = fst (coerce_call sv x b))
     \<and> (\<forall>v r a b. fst (satisfies_call sv v r a) = fst (satisfies_call sv v r b))
     \<and> (\<forall>r a b. fst (minVersion_call sv r a) = fst (minVersion_call sv r b))"

definition answers :: "('v, 'w) semver_module \<Rightarrow> 'w \<Rightarrow> 'v semver" where
  "answers sv s =
     \<lparr> coerce = (\<lambda>x. fst (coerce_call sv x s)),
       satisfies = (\<lambda>v r. fst (satisfies_call sv v r s)),
       minVersion = (\<lambda>r. fst (minVersion_call sv r s)) \<rparr>"

text \<open>The example module with a state of its own, the number of calls made so far.\<close>

definition counting_semver :: "(nat \<times> nat \<times> nat, nat) semver_module" where
  "counting_semver =
     \<lparr> coerce_call = (\<lambda>x n. (coerce demo_semver x, Suc n)),
       satisfies_call = (\<lambda>v r n. (satisfies demo_semver v r, Suc n)),
       minVersion_call = (\<lambda>r n. (minVersion demo_semver r, Suc n)) \<rparr>"

section \<open>Regular expressions\<close>

text \<open>
  The source matches strings with regular expression literals. Their constructs are literal
  text, a character class under a greedy \<^verbatim>\<open>+\<close> or \<^verbatim>\<open>*\<close> or a lazy \<^verbatim>\<open>+?\<close>, sequence,
  alternation, an optional group, a capture group and the anchors \<^verbatim>\<open>^\<close> and \<^verbatim>\<open>$\<close> (no
  flag is set, so the anchors are the ends of the input).
\<close>

datatype rx =
    Lit jsstring
  | Plus "jschar \<Rightarrow> bool"
  | Star "jschar \<Rightarrow> bool"
  | LazyPlus "jschar \<Rightarrow> bool"
  | Seq rx rx
  | Alt rx rx
  | Opt rx
  | Group nat rx
  | Bol
  | Eol

text \<open>
  A matcher state is the position reached, the input left and the captures made. \<open>ms r st\<close>
  lists the states in which a match of \<open>r\<close> from \<open>st\<close> can end, in the order in which a
  backtracking matcher tries them: a greedy repetition offers its longest run first, a lazy
  one its shortest, an alternation its left branch, an optional group its body before the
  empty match. The match found is the first state of the list.
\<close>

type_synonym captures = "(nat \<times> jsstring) list"
type_synonym mstate = "nat \<times> jsstring \<times> captures"

fun ms :: "rx \<Rightarrow> mstate \<Rightarrow> mstate list" where
  "ms (Lit l) (i, s, c) = (if startsWith s l then [(i + length l, drop (length l) s, c)] else [])"
| "ms (Plus p) (i, s, c) =
     map (\<lambda>k. (i + k, drop k s, c)) (rev [1 ..< Suc (length (takeWhile p s))])"
| "ms (Star p) (i, s, c) =
     map (\<lambda>k. (i + k, drop k s, c)) (rev [0 ..< Suc (length (takeWhile p s))])"
| "ms (LazyPlus p) (i, s, c) =
     map (\<lambda>k. (i + k, drop k s, c)) [1 ..< Suc (length (takeWhile p s))]"
| "ms (Seq a b) st = concat (map (ms b) (ms a st))"
| "ms (Alt a b) st = ms a st @ ms b st"
| "ms (Opt a) st = ms a st @ [st]"
| "ms (Group n a) (i, s, c) =
     map (\<lambda>(j, s', c'). (j, s', (n, take (j - i) s) # c')) (ms a (i, s, c))"
| "ms Bol (i, s, c) = (if i = 0 then [(i, s, c)] else [])"
| "ms Eol (i, s, c) = (if s = [] then [(i, s, c)] else [])"

fun seq :: "rx list \<Rightarrow> rx" where
  "seq [] = Lit []"
| "seq [r] = r"
| "seq (r # rs) = Seq r (seq rs)"

text \<open>
  \<^verbatim>\<open>RegExp.prototype.exec\<close> without the global flag: the match at the leftmost start
  position that has one, as the start index, the end index and the captures.
\<close>

fun exec_from :: "rx \<Rightarrow> nat \<Rightarrow> jsstring \<Rightarrow> (nat \<times> nat \<times> captures) option" where
  "exec_from r i s =
     (case ms r (i, s, []) of
        (j, rest, c) # others \<Rightarrow> Some (i, j, c)
      | [] \<Rightarrow> (case s of [] \<Rightarrow> None | x # s' \<Rightarrow> exec_from r (Suc i) s'))"

definition exec :: "rx \<Rightarrow> jsstring \<Rightarrow> (nat \<times> nat \<times> captures) option" where
  "exec r s = exec_from r 0 s"


definition capture :: "(nat \<times> nat \<times> captures) \<Rightarrow> nat \<Rightarrow> jsstring option" where
  "capture m n = map_of (snd (snd m)) n"


text \<open>The character classes \<^verbatim>\<open>\s\<close>, \<^verbatim>\<open>\w\<close> and \<^verbatim>\<open>.\<close> (\<^verbatim>\<open>\d\<close> is \<open>isDigit\<close>).\<close>

definition isSpace :: "jschar \<Rightarrow> bool" where
  "isSpace ch =
     (ch \<in> set [0x09, 0x0A, 0x0B, 0x0C, 0x0D, 0x20, 0xA0, 0x1680, 0x2028, 0x2029, 0x202F,
                0x205F, 0x3000, 0xFEFF]
      \<or> (0x2000 \<le> ch \<and> ch \<le> 0x200A))"


definition isDot :: "jschar \<Rightarrow> bool" where
  "isDot ch = (ch \<notin> set [0x0A, 0x0D, 0x2028, 0x2029])"

section \<open>Long identifiers of findings\<close>

text \<open>
  A line or a column is a JavaScript number; the model has \<^verbatim>\<open>NaN\<close> and the integers.
  The safe integers, up to \<^verbatim>\<open>Number.MAX_SAFE_INTEGER\<close> in absolute value, are all
  Number values, the conversion of a template literal prints each of them with all its decimal
  digits, and \<^verbatim>\<open>parseInt\<close> returns each of them exactly. Beyond them the language rounds
  to the nearest Number value, prints the shortest digits that read back, changes to an
  exponent from \<^verbatim>\<open>1e+21\<close> on, and leaves \<^verbatim>\<open>parseInt\<close> free to approximate after
  twenty digits. The model does not compute that part: what the two built-in functions do
  with an integer that is not safe is taken as a parameter. The two zeros of the language are
  the one integer \<open>0\<close>, as \<^verbatim>\<open>===\<close> has them.
\<close>

datatype number = NaN | Integer int

definition MAX_SAFE_INTEGER :: int where
  "MAX_SAFE_INTEGER = 9007199254740991"

definition isSafeInteger :: "int \<Rightarrow> bool" where
  "isSafeInteger i = (- MAX_SAFE_INTEGER \<le> i \<and> i \<le> MAX_SAFE_INTEGER)"

text \<open>\<open>toString_beyond i\<close> is the text of the number \<open>i\<close>, and \<open>parseInt_beyond i\<close> the
  number that \<^verbatim>\<open>parseInt\<close> returns for digits of the value \<open>i\<close>, when \<open>i\<close> is not a safe
  integer.\<close>

record beyond =
  toString_beyond :: "int \<Rightarrow> jsstring"
  parseInt_beyond :: "int \<Rightarrow> number"

definition digit_char :: "nat \<Rightarrow> jschar" where
  "digit_char d = of_nat (48 + d)"

function nat_digits :: "nat \<Rightarrow> jsstring" where
  "nat_digits n = (if n < 10 then [digit_char n] else nat_digits (n div 10) @ [digit_char (n mod 10)])"
  by pat_completeness auto
termination
  by (relation "measure id") auto

declare nat_digits.simps [simp del]

text \<open>\<open>numToString\<close> is the conversion a template literal applies to a number.\<close>

fun numToString :: "beyond \<Rightarrow> number \<Rightarrow> jsstring" where
  "numToString nb NaN = js ''NaN''"
| "numToString nb (Integer i) =
     (if isSafeInteger i then (if i < 0 then 0x2D # nat_digits (nat (- i)) else nat_digits (nat i))
      else toString_beyond nb i)"

text \<open>\<open>parseInt10\<close> is \<^verbatim>\<open>parseInt(s, 10)\<close>: leading white space, an optional sign, then the
  longest run of decimal digits, and \<^verbatim>\<open>NaN\<close> when that run is empty.\<close>

definition parseInt10 :: "beyond \<Rightarrow> jsstring \<Rightarrow> number" where
  "parseInt10 nb s =
     (let t = dropWhile isSpace s;
          negative = startsWith t [0x2D];
          u = (if startsWith t [0x2D] \<or> startsWith t [0x2B] then drop 1 t else t);
          ds = takeWhile isDigit u;
          mathInt = (if negative then - int (digits_value ds) else int (digits_value ds))
      in if ds = [] then NaN
         else if isSafeInteger mathInt then Integer mathInt
         else parseInt_beyond nb mathInt)"

text \<open>\<^verbatim>\<open>makeLongId(pkg, exportName, file, line, col)\<close>; \<open>0x3A\<close> is the colon.\<close>

definition makeLongId ::
  "beyond \<Rightarrow> jsstring \<Rightarrow> jsstring \<Rightarrow> jsstring \<Rightarrow> number \<Rightarrow> number \<Rightarrow> jsstring" where
  "makeLongId nb pkg exportName file line col =
     js ''dxy:'' @ pkg @ [0x2F] @ exportName @ [0x3A] @ file @ [0x3A] @ numToString nb line
       @ [0x3A] @ numToString nb col"

text \<open>The pattern \<^verbatim>\<open>/^dxy:([^/]+)\/([^:]+):(.+):(\d+):(\d+)$/\<close>.\<close>

definition LONG_ID :: rx where
  "LONG_ID =
     seq [Bol, Lit (js ''dxy:''), Group 1 (Plus (\<lambda>ch. ch \<noteq> 0x2F)), Lit [0x2F],
          Group 2 (Plus (\<lambda>ch. ch \<noteq> 0x3A)), Lit [0x3A], Group 3 (Plus isDot), Lit [0x3A],
          Group 4 (Plus isDigit), Lit [0x3A], Group 5 (Plus isDigit), Eol]"

text \<open>The object \<^verbatim>\<open>parseLongId\<close> returns, with the fields \<^verbatim>\<open>package\<close>, \<^verbatim>\<open>export\<close>,
  \<^verbatim>\<open>file\<close>, \<^verbatim>\<open>line\<close> and \<^verbatim>\<open>column\<close>.\<close>

record ParsedLongId =
  lid_package :: jsstring
  lid_export :: jsstring
  lid_file :: jsstring
  lid_line :: number
  lid_column :: number

text \<open>\<^verbatim>\<open>parseLongId(longId)\<close>. A capture fails the test \<^verbatim>\<open>!pkg\<close> when it is undefined or
  empty.\<close>

definition falsy :: "jsstring option \<Rightarrow> bool" where
  "falsy x = (case x of None \<Rightarrow> True | Some s \<Rightarrow> \<not> truthy s)"

definition parseLongId :: "beyond \<Rightarrow> jsstring \<Rightarrow> ParsedLongId option" where
  "parseLongId nb longId =
     (case exec LONG_ID longId of
        None \<Rightarrow> None
      | Some m \<Rightarrow>
          (let pkg = capture m 1; exp = capture m 2; file = capture m 3;
               line = capture m 4; col = capture m 5
           in if falsy pkg \<or> falsy exp \<or> falsy file \<or> falsy line \<or> falsy col then None
              else Some \<lparr> lid_package = the pkg, lid_export = the exp, lid_file = the file,
                          lid_line = parseInt10 nb (the line), lid_column = parseInt10 nb (the col) \<rparr>))"

text \<open>An instance of the parameter for the examples. They pass safe integers only, for which
  neither function is consulted, so that the instance stands for no particular engine.\<close>

definition beyond_examples :: beyond where
  "beyond_examples = \<lparr> toString_beyond = (\<lambda>i. []), parseInt_beyond = (\<lambda>i. NaN) \<rparr>"

section \<open>Inline suppression parser\<close>




























section \<open>Import resolver\<close>

subsection \<open>The normalized AST and symbol usages\<close>

record SourceLocation =
  loc_file :: jsstring
  loc_line :: int
  loc_column :: int
  loc_endLine :: "int option"
  loc_endColumn :: "int option"

record ImportSpecifier =
  imported :: jsstring
  local_name :: jsstring
  spec_isTypeOnly :: bool

record NormalizedImport =
  imp_source :: jsstring
  specifiers :: "ImportSpecifier list"
  hasDefault :: bool
  defaultLocal :: "jsstring option"
  hasNamespace :: bool
  namespaceLocal :: "jsstring option"
  imp_isTypeOnly :: bool
  isRequire :: bool
  imp_location :: SourceLocation

record NormalizedCallExpression =
  callee :: jsstring
  argCount :: int
  argNames :: "jsstring list"
  call_location :: SourceLocation

record NormalizedJSXElement =
  tagName :: jsstring
  attributes :: "jsstring list"
  jsx_location :: SourceLocation

record NormalizedAST =
  ast_imports :: "NormalizedImport list"
  ast_callExpressions :: "NormalizedCallExpression list"
  ast_jsxElements :: "NormalizedJSXElement list"

datatype ImportKind = Named | Default | Namespace | Dynamic

record UsageSite =
  site_location :: SourceLocation
  site_argCount :: "int option"
  site_argNames :: "jsstring list option"

record SymbolUsage =
  u_package :: jsstring
  u_export :: jsstring
  u_importKind :: ImportKind
  usageSites :: "UsageSite list"

text \<open>The \<^verbatim>\<open>Binding\<close> interface of the resolver.\<close>

record Binding =
  b_package :: jsstring
  b_exportName :: jsstring
  b_importKind :: ImportKind
  b_importLocation :: SourceLocation

subsection \<open>Maps and sets in insertion order\<close>

text \<open>
  A JavaScript \<^verbatim>\<open>Map\<close> iterates in the order in which its keys were first set, so it is an
  association list: \<^verbatim>\<open>set\<close> replaces the value of a key that is present, where it stands,
  and appends a key that is absent; \<^verbatim>\<open>get\<close> is \<^const>\<open>map_of\<close>. A \<^verbatim>\<open>Set\<close> is the list
  of its members in the order of their first \<^verbatim>\<open>add\<close>.
\<close>

fun map_set :: "'k \<Rightarrow> 'v \<Rightarrow> ('k \<times> 'v) list \<Rightarrow> ('k \<times> 'v) list" where
  "map_set k v [] = [(k, v)]"
| "map_set k v ((k', v') # m) = (if k' = k then (k, v) # m else (k', v') # map_set k v m)"

definition map_has :: "('k \<times> 'v) list \<Rightarrow> 'k \<Rightarrow> bool" where
  "map_has m k = (map_of m k \<noteq> None)"

definition set_add :: "'a \<Rightarrow> 'a list \<Rightarrow> 'a list" where
  "set_add x xs = (if x \<in> set xs then xs else xs @ [x])"

subsection \<open>Step 1: the bindings of the imports\<close>

text \<open>The four collections step 1 of \<^verbatim>\<open>resolveImports\<close> fills.\<close>

record ResolverState =
  bindings :: "(jsstring \<times> Binding) list"
  namespacesAndDefaults :: "(jsstring \<times> jsstring) list"
  importedPackages :: "jsstring list"
  unresolvedImports :: "jsstring list"

text \<open>The body of the loop over \<^verbatim>\<open>imp.specifiers\<close>.\<close>

definition bind_specifier ::
  "jsstring \<Rightarrow> NormalizedImport \<Rightarrow> (jsstring \<times> Binding) list \<Rightarrow> ImportSpecifier
     \<Rightarrow> (jsstring \<times> Binding) list" where
  "bind_specifier pkg imp bs sp =
     (if spec_isTypeOnly sp then bs
      else map_set (local_name sp)
             \<lparr> b_package = pkg, b_exportName = imported sp, b_importKind = Named,
               b_importLocation = imp_location imp \<rparr> bs)"

text \<open>The test \<^verbatim>\<open>imp.hasDefault && imp.defaultLocal\<close> and its like: the flag is set and the
  name is present and not empty.\<close>

definition present :: "bool \<Rightarrow> jsstring option \<Rightarrow> jsstring option" where
  "present flag name =
     (case name of
        None \<Rightarrow> None
      | Some n \<Rightarrow> if flag \<and> truthy n then Some n else None)"

text \<open>The body of the loop over \<^verbatim>\<open>ast.imports\<close>; \<open>tracked\<close> is the optional
  \<^verbatim>\<open>trackedPackages\<close>.\<close>

definition bind_import ::
  "jsstring list option \<Rightarrow> ResolverState \<Rightarrow> NormalizedImport \<Rightarrow> ResolverState" where
  "bind_import tracked st imp =
     (if imp_isTypeOnly imp then st
      else
        (case extractPackageName (imp_source imp) of
           None \<Rightarrow> st
         | Some pkg \<Rightarrow>
             if \<not> truthy pkg then st
             else if (case tracked of None \<Rightarrow> False | Some t \<Rightarrow> pkg \<notin> set t)
             then st \<lparr> unresolvedImports := unresolvedImports st @ [imp_source imp] \<rparr>
             else
               (let named = foldl (bind_specifier pkg imp) (bindings st) (specifiers imp);
                    (nd1, bs1) =
                      (case present (hasDefault imp) (defaultLocal imp) of
                         None \<Rightarrow> (namespacesAndDefaults st, named)
                       | Some d \<Rightarrow>
                           (map_set d pkg (namespacesAndDefaults st),
                            map_set d \<lparr> b_package = pkg, b_exportName = js ''default'',
                                        b_importKind = Default,
                                        b_importLocation = imp_location imp \<rparr> named));
                    (nd2, bs2) =
                      (case present (hasNamespace imp) (namespaceLocal imp) of
                         None \<Rightarrow> (nd1, bs1)
                       | Some ns \<Rightarrow>
                           (map_set ns pkg nd1,
                            map_set ns \<lparr> b_package = pkg, b_exportName = js ''*'',
                                         b_importKind = Namespace,
                                         b_importLocation = imp_location imp \<rparr> bs1))
                in st \<lparr> bindings := bs2, namespacesAndDefaults := nd2,
                        importedPackages := set_add pkg (importedPackages st) \<rparr>)))"

definition resolve_bindings :: "NormalizedAST \<Rightarrow> jsstring list option \<Rightarrow> ResolverState" where
  "resolve_bindings ast tracked =
     foldl (bind_import tracked)
       \<lparr> bindings = [], namespacesAndDefaults = [], importedPackages = [],
         unresolvedImports = [] \<rparr>
       (ast_imports ast)"

subsection \<open>Step 2: the call sites\<close>

text \<open>\<^verbatim>\<open>resolveCallee\<close>; the result is the package, the export name and the import kind.
  \<open>0x2E\<close> is the dot.\<close>

definition resolveCallee ::
  "jsstring \<Rightarrow> (jsstring \<times> Binding) list \<Rightarrow> (jsstring \<times> jsstring) list
     \<Rightarrow> (jsstring \<times> jsstring \<times> ImportKind) option" where
  "resolveCallee name bs nd =
     (case (case map_of bs name of
              None \<Rightarrow> None
            | Some direct \<Rightarrow>
                if b_exportName direct \<noteq> js ''default'' \<and> b_exportName direct \<noteq> js ''*''
                then Some (b_package direct, b_exportName direct, b_importKind direct)
                else None) of
        Some r \<Rightarrow> Some r
      | None \<Rightarrow>
          (let dotIdx = indexOf name 0x2E in
           if dotIdx \<noteq> -1 then
             (let obj = slice name 0 dotIdx; prop = slice_from name (dotIdx + 1) in
              case map_of nd obj of
                None \<Rightarrow> None
              | Some pkg \<Rightarrow>
                  if truthy pkg then
                    Some (pkg, prop,
                          if map_option b_importKind (map_of bs obj) = Some Namespace
                          then Namespace else Default)
                  else None)
           else None))"

text \<open>The body of the loop over \<^verbatim>\<open>ast.callExpressions\<close>: the usage of the key is created
  when the map has none, and the site is pushed onto the usage that the map holds.\<close>

definition add_call ::
  "ResolverState \<Rightarrow> (jsstring \<times> SymbolUsage) list \<Rightarrow> NormalizedCallExpression
     \<Rightarrow> (jsstring \<times> SymbolUsage) list" where
  "add_call st usageMap call =
     (case resolveCallee (callee call) (bindings st) (namespacesAndDefaults st) of
        None \<Rightarrow> usageMap
      | Some (pkg, exportName, kind) \<Rightarrow>
          (let key = pkg @ [0x2F] @ exportName;
               usage = (case map_of usageMap key of
                          Some u \<Rightarrow> u
                        | None \<Rightarrow> \<lparr> u_package = pkg, u_export = exportName,
                                    u_importKind = kind, usageSites = [] \<rparr>);
               site = \<lparr> site_location = call_location call,
                        site_argCount = Some (argCount call),
                        site_argNames = (if length (argNames call) > 0
                                         then Some (argNames call) else None) \<rparr>
           in map_set key (usage \<lparr> usageSites := usageSites usage @ [site] \<rparr>) usageMap))"

definition call_usages ::
  "NormalizedAST \<Rightarrow> jsstring list option \<Rightarrow> (jsstring \<times> SymbolUsage) list" where
  "call_usages ast tracked =
     foldl (add_call (resolve_bindings ast tracked)) [] (ast_callExpressions ast)"

subsection \<open>Step 3: import-only usages\<close>

text \<open>The key of a binding and of a usage, \<^verbatim>\<open>`${package}/${export}`\<close>, the test that skips
  default and namespace bindings, and the usage step 3 makes of a binding.\<close>

definition binding_key :: "Binding \<Rightarrow> jsstring" where
  "binding_key b = b_package b @ [0x2F] @ b_exportName b"

definition usage_key :: "SymbolUsage \<Rightarrow> jsstring" where
  "usage_key u = u_package u @ [0x2F] @ u_export u"

definition is_named :: "Binding \<Rightarrow> bool" where
  "is_named b = (b_exportName b \<noteq> js ''default'' \<and> b_exportName b \<noteq> js ''*'')"

definition import_only_usage :: "Binding \<Rightarrow> SymbolUsage" where
  "import_only_usage b =
     \<lparr> u_package = b_package b, u_export = b_exportName b, u_importKind = b_importKind b,
       usageSites = [\<lparr> site_location = b_importLocation b, site_argCount = None,
                        site_argNames = None \<rparr>] \<rparr>"

text \<open>The body of the loop over the bindings.\<close>

definition add_import_only ::
  "(jsstring \<times> SymbolUsage) list \<Rightarrow> Binding \<Rightarrow> (jsstring \<times> SymbolUsage) list" where
  "add_import_only usageMap b =
     (if b_exportName b = js ''default'' \<or> b_exportName b = js ''*'' then usageMap
      else if map_has usageMap (binding_key b) then usageMap
      else map_set (binding_key b) (import_only_usage b) usageMap)"

text \<open>The object \<^verbatim>\<open>resolveImports\<close> returns, and the function.\<close>

record ResolveResult =
  usages :: "SymbolUsage list"
  res_importedPackages :: "jsstring list"
  res_unresolvedImports :: "jsstring list"

definition resolveImports :: "NormalizedAST \<Rightarrow> jsstring list option \<Rightarrow> ResolveResult" where
  "resolveImports ast tracked =
     (let st = resolve_bindings ast tracked;
          usageMap = foldl add_import_only (call_usages ast tracked) (map snd (bindings st))
      in \<lparr> usages = map snd usageMap,
           res_importedPackages = importedPackages st,
           res_unresolvedImports = unresolvedImports st \<rparr>)"

text \<open>The usages of a key among a list of usages, and the first named binding of a key in
  the order of the binding map.\<close>

definition usages_of :: "jsstring \<Rightarrow> SymbolUsage list \<Rightarrow> SymbolUsage list" where
  "usages_of k us = filter (\<lambda>u. usage_key u = k) us"

definition first_binding :: "jsstring \<Rightarrow> Binding list \<Rightarrow> Binding option" where
  "first_binding k bs = find (\<lambda>b. is_named b \<and> binding_key b = k) bs"

text \<open>A file to run the resolver on: two aliased imports of the same symbol, on lines 1 and
  2, and no call.
  \<^verbatim>\<open>import { useState as a } from "react"; import { useState as b } from "react";\<close>\<close>

definition import_at :: "int \<Rightarrow> jsstring \<Rightarrow> NormalizedImport" where
  "import_at n alias =
     \<lparr> imp_source = js ''react'',
       specifiers = [\<lparr> imported = js ''useState'', local_name = alias, spec_isTypeOnly = False \<rparr>],
       hasDefault = False, defaultLocal = None, hasNamespace = False, namespaceLocal = None,
       imp_isTypeOnly = False, isRequire = False,
       imp_location = \<lparr> loc_file = js ''a.ts'', loc_line = n, loc_column = 0,
                         loc_endLine = None, loc_endColumn = None \<rparr> \<rparr>"

definition binding_at :: "int \<Rightarrow> Binding" where
  "binding_at n =
     \<lparr> b_package = js ''react'', b_exportName = js ''useState'', b_importKind = Named,
       b_importLocation = \<lparr> loc_file = js ''a.ts'', loc_line = n, loc_column = 0,
                             loc_endLine = None, loc_endColumn = None \<rparr> \<rparr>"

definition two_aliases :: NormalizedAST where
  "two_aliases =
     \<lparr> ast_imports = [import_at 1 (js ''a''), import_at 2 (js ''b'')],
       ast_callExpressions = [], ast_jsxElements = [] \<rparr>"

text \<open>A usage map is keyed when its keys are distinct and each is the key of its usage.\<close>

definition keyed :: "(jsstring \<times> SymbolUsage) list \<Rightarrow> bool" where
  "keyed m = (distinct (map fst m) \<and> list_all (\<lambda>p. fst p = usage_key (snd p)) m)"

text \<open>A second file: \<^verbatim>\<open>import { useState } from "react";\<close> on line 1 and the call
  \<^verbatim>\<open>useState(0)\<close> on line 3.\<close>

definition call_at :: "int \<Rightarrow> NormalizedCallExpression" where
  "call_at n =
     \<lparr> callee = js ''useState'', argCount = 1, argNames = [],
       call_location = \<lparr> loc_file = js ''a.ts'', loc_line = n, loc_column = 0,
                          loc_endLine = None, loc_endColumn = None \<rparr> \<rparr>"

definition one_call :: NormalizedAST where
  "one_call =
     \<lparr> ast_imports = [import_at 1 (js ''useState'')],
       ast_callExpressions = [call_at 3], ast_jsxElements = [] \<rparr>"

definition call_usage :: SymbolUsage where
  "call_usage =
     \<lparr> u_package = js ''react'', u_export = js ''useState'', u_importKind = Named,
       usageSites = [\<lparr> site_location = call_location (call_at 3), site_argCount = Some 1,
                        site_argNames = None \<rparr>] \<rparr>"

section \<open>Package-name extraction: proofs\<close>

lemma split_ne: "split s c \<noteq> []"
  by (induction s) (auto split: list.splits)
lemma hd_split: "hd (split s c) = takeWhile (\<lambda>x. x \<noteq> c) s"
  by (induction s) (auto split: list.splits simp: split_ne)
lemma indexOf_ge: "- 1 \<le> indexOf s c"
  by (induction s) (auto simp: Let_def)
lemma indexOf_none: "indexOf s c = -1 \<longleftrightarrow> c \<notin> set s"
proof (induction s)
  case Nil then show ?case by simp
next
  case (Cons a s)
  have "indexOf s c + 1 \<noteq> - 1" using indexOf_ge[of s c] by arith
  with Cons show ?case by (auto simp: Let_def)
qed
lemma indexOf_some: "c \<in> set s \<Longrightarrow> indexOf s c = int (length (takeWhile (\<lambda>x. x \<noteq> c) s))"
  by (induction s) (auto simp: Let_def indexOf_none)
lemma length_split: "length (split s c) = Suc (length (filter (\<lambda>x. x = c) s))"
  by (induction s) (auto split: list.splits simp: split_ne)
lemma length_split_ge2: "2 \<le> length (split s c) \<longleftrightarrow> c \<in> set s"
  by (auto simp: length_split filter_empty_conv Suc_le_eq)

lemma slice_prefix: "0 \<le> i \<Longrightarrow> slice s 0 i = take (nat i) s"
  by (simp add: slice_def slice_index_def Let_def min_def)

lemma take_takeWhile: "take (length (takeWhile P s)) s = takeWhile P s"
  by (induction s) auto

lemma first_segments_1: "first_segments (Suc 0) s = hd (split s 0x2F)"
  by (cases "split s 0x2F") (simp_all add: first_segments_def split_ne)

lemma first_segments_2:
  assumes "2 \<le> length (split s 0x2F)"
  shows "first_segments 2 s = split s 0x2F ! 0 @ [0x2F] @ split s 0x2F ! 1"
proof -
  obtain a b rest where "split s 0x2F = a # b # rest"
    using assms by (cases "split s 0x2F"; cases "tl (split s 0x2F)") auto
  then show ?thesis by (simp add: first_segments_def numeral_2_eq_2)
qed

text \<open>
  C7, as stated, at the source \<^verbatim>\<open>"@scope"\<close>: the claim gives the first two slash-delimited
  segments of a source that starts with an at sign, here the single segment \<^verbatim>\<open>"@scope"\<close>;
  the code returns \<^verbatim>\<open>undefined\<close>, by its guard \<^verbatim>\<open>parts.length < 2\<close>.
\<close>

theorem extractPackageName_counterexample:
  "extractPackageName (js ''@scope'') \<noteq> spec_extractPackageName (js ''@scope'')"
  by (simp add: extractPackageName_def spec_extractPackageName_def first_segments_def
      js_def startsWith_def)

text \<open>
  C7, amended: \<^verbatim>\<open>extractPackageName(s)\<close> returns nothing when \<open>s\<close> starts with a dot or a
  slash, and nothing when \<open>s\<close> starts with an at sign and contains no slash; otherwise the
  first two slash-delimited segments of \<open>s\<close> when it starts with an at sign, and the first
  segment (the whole string when there is no slash) in every other case.
\<close>

theorem extractPackageName_segments:
  "extractPackageName s =
     (if startsWith s [0x40] \<and> 0x2F \<notin> set s then None else spec_extractPackageName s)"
proof (cases "startsWith s [0x2E] \<or> startsWith s [0x2F]")
  case True
  then show ?thesis
    by (auto simp: extractPackageName_def spec_extractPackageName_def)
next
  case rel: False
  show ?thesis
  proof (cases "startsWith s [0x40]")
    case True
    with rel show ?thesis
      using length_split_ge2[of s "0x2F"] first_segments_2[of s]
      by (auto simp: extractPackageName_def spec_extractPackageName_def Let_def not_less)
  next
    case False
    show ?thesis
    proof (cases "0x2F \<in> set s")
      case True
      then have "indexOf s 0x2F = int (length (takeWhile (\<lambda>x. x \<noteq> 0x2F) s))"
        by (rule indexOf_some)
      moreover have "indexOf s 0x2F \<noteq> -1" using True by (simp add: indexOf_none)
      ultimately show ?thesis using rel False
        by (simp add: extractPackageName_def spec_extractPackageName_def Let_def
            slice_prefix take_takeWhile first_segments_1 hd_split)
    next
      case nos: False
      then have "indexOf s 0x2F = -1" by (simp add: indexOf_none)
      moreover have "first_segments (Suc 0) s = s"
        using nos by (auto simp: first_segments_1 hd_split takeWhile_eq_all_conv)
      ultimately show ?thesis using rel False
        by (simp add: extractPackageName_def spec_extractPackageName_def Let_def)
    qed
  qed
qed

section \<open>Inline suppression matching: proofs\<close>

text \<open>
  C6: \<^verbatim>\<open>isLineSuppressed(L, K, suppressions)\<close> returns the first suppression of the list whose
  closed range \<open>[startLine, endLine]\<close> contains \<open>L\<close> and whose kind is \<^verbatim>\<open>*\<close> or \<open>K\<close>, and
  nothing when no suppression of the list satisfies both conditions.
\<close>

theorem isLineSuppressed_first_cover:
  "isLineSuppressed L K sups = find (covers L K) sups"
  by (induction sups) (auto simp: covers_def)


section \<open>Authority store: proofs\<close>

subsection \<open>The signature loop\<close>

lemma loop_skip: "\<not> applicable sv c sig \<Longrightarrow> signature_loop sv c (sig # sigs) best = signature_loop sv c sigs best"
  by (auto simp: applicable_def lt_def gte_def truthy_def split: option.splits)

lemma loop_first: "applicable sv c sig \<Longrightarrow> signature_loop sv c (sig # sigs) None = signature_loop sv c sigs (Some sig)"
  by (auto simp: applicable_def lt_def gte_def truthy_def split: option.splits)

lemma loop_next:
  "applicable sv c sig \<Longrightarrow> applicable sv c b \<Longrightarrow>
   signature_loop sv c (sig # sigs) (Some b) =
     (if since_le sv sig b then signature_loop sv c sigs (Some b) else signature_loop sv c sigs (Some sig))"
  by (auto simp: applicable_def since_le_def lt_def gte_def gt_def truthy_def split: option.splits)

lemma since_le_total: "applicable sv c a \<Longrightarrow> applicable sv c b \<Longrightarrow> since_le sv a b \<or> since_le sv b a"
  by (auto simp: applicable_def since_le_def split: option.splits)

lemma since_le_trans: "since_le sv a b \<Longrightarrow> since_le sv b d \<Longrightarrow> since_le sv a d"
  by (auto simp: since_le_def split: option.splits)

lemma since_le_refl: "applicable sv c a \<Longrightarrow> since_le sv a a"
  by (auto simp: applicable_def since_le_def split: option.splits)

lemma find_cong_set: "(\<And>x. x \<in> set xs \<Longrightarrow> P x = Q x) \<Longrightarrow> find P xs = find Q xs"
  by (induction xs) auto

lemma find_newest_skip:
  assumes "\<not> applicable sv c x"
  shows "find (newest_applicable sv c (x # xs)) (x # xs) = find (newest_applicable sv c xs) xs"
proof -
  have "\<not> newest_applicable sv c (x # xs) x"
    using assms by (simp add: newest_applicable_def)
  moreover have "find (newest_applicable sv c (x # xs)) xs = find (newest_applicable sv c xs) xs"
    using assms by (intro find_cong_set) (auto simp: newest_applicable_def)
  ultimately show ?thesis by simp
qed

lemma find_newest_head:
  assumes app: "applicable sv c x"
  shows "find (newest_applicable sv c (x # xs)) (x # xs) =
          (if \<exists>y \<in> set xs. applicable sv c y \<and> \<not> since_le sv y x
           then find (newest_applicable sv c xs) xs else Some x)"
proof (cases "\<exists>y \<in> set xs. applicable sv c y \<and> \<not> since_le sv y x")
  case True
  then obtain y where y: "y \<in> set xs" "applicable sv c y" "\<not> since_le sv y x" by blast
  then have nx: "\<not> newest_applicable sv c (x # xs) x"
    by (auto simp: newest_applicable_def)
  have xy: "since_le sv x y" using y since_le_total[OF app y(2)] by blast
  have "newest_applicable sv c (x # xs) z = newest_applicable sv c xs z" if "z \<in> set xs" for z
  proof -
    have "since_le sv x z" if "newest_applicable sv c xs z"
    proof -
      have "since_le sv y z" using that y by (auto simp: newest_applicable_def)
      then show ?thesis using xy since_le_trans by blast
    qed
    then show ?thesis by (auto simp: newest_applicable_def)
  qed
  then have "find (newest_applicable sv c (x # xs)) xs = find (newest_applicable sv c xs) xs"
    by (intro find_cong_set)
  then show ?thesis using True nx by simp
next
  case False
  then have "newest_applicable sv c (x # xs) x"
    using app since_le_refl[OF app] by (auto simp: newest_applicable_def)
  then have "find (newest_applicable sv c (x # xs)) (x # xs) = Some x" by simp
  then show ?thesis using False by (simp only: if_False)
qed

lemma loop_some:
  "applicable sv c b \<Longrightarrow>
   signature_loop sv c sigs (Some b) =
     (if \<exists>y \<in> set sigs. applicable sv c y \<and> \<not> since_le sv y b
      then find (newest_applicable sv c sigs) sigs
      else Some b)"
proof (induction sigs arbitrary: b)
  case Nil
  then show ?case by simp
next
  case (Cons x xs)
  show ?case
  proof (cases "applicable sv c x")
    case False
    have ex: "(\<exists>y \<in> set (x # xs). applicable sv c y \<and> \<not> since_le sv y b)
        = (\<exists>y \<in> set xs. applicable sv c y \<and> \<not> since_le sv y b)"
      using False by auto
    have "signature_loop sv c (x # xs) (Some b) = signature_loop sv c xs (Some b)"
      by (rule loop_skip[OF False])
    also have "\<dots> = (if \<exists>y \<in> set xs. applicable sv c y \<and> \<not> since_le sv y b
         then find (newest_applicable sv c xs) xs else Some b)"
      by (rule Cons.IH[OF Cons.prems])
    finally show ?thesis
      by (simp only: ex find_newest_skip[OF False])
  next
    case app: True
    show ?thesis
    proof (cases "since_le sv x b")
      case True
      have ex: "(\<exists>y \<in> set (x # xs). applicable sv c y \<and> \<not> since_le sv y b)
        = (\<exists>y \<in> set xs. applicable sv c y \<and> \<not> since_le sv y b)"
        using True by auto
      have fnd: "find (newest_applicable sv c (x # xs)) (x # xs) = find (newest_applicable sv c xs) xs"
        if "\<exists>y \<in> set xs. applicable sv c y \<and> \<not> since_le sv y b"
      proof -
        from that obtain y where y: "y \<in> set xs" "applicable sv c y" "\<not> since_le sv y b" by blast
        have "\<not> since_le sv y x" using y True since_le_trans by blast
        then have "\<exists>y \<in> set xs. applicable sv c y \<and> \<not> since_le sv y x" using y by blast
        then show ?thesis by (simp only: find_newest_head[OF app] if_True)
      qed
      have "signature_loop sv c (x # xs) (Some b) = signature_loop sv c xs (Some b)"
        using True by (simp only: loop_next[OF app Cons.prems] if_True)
      also have "\<dots> = (if \<exists>y \<in> set xs. applicable sv c y \<and> \<not> since_le sv y b
         then find (newest_applicable sv c xs) xs else Some b)"
        by (rule Cons.IH[OF Cons.prems])
      finally show ?thesis
        using fnd by (simp only: ex split: if_splits) auto
    next
      case False
      then have ex: "\<exists>y \<in> set (x # xs). applicable sv c y \<and> \<not> since_le sv y b"
        using app by auto
      have "signature_loop sv c (x # xs) (Some b) = signature_loop sv c xs (Some x)"
        using False by (simp only: loop_next[OF app Cons.prems] if_False)
      also have "\<dots> = (if \<exists>y \<in> set xs. applicable sv c y \<and> \<not> since_le sv y x
         then find (newest_applicable sv c xs) xs else Some x)"
        by (rule Cons.IH[OF app])
      also have "\<dots> = find (newest_applicable sv c (x # xs)) (x # xs)"
        by (rule find_newest_head[OF app, symmetric])
      finally show ?thesis
        using ex by (simp only: if_True)
    qed
  qed
qed

lemma loop_none:
  "signature_loop sv c sigs None = find (newest_applicable sv c sigs) sigs"
proof (induction sigs)
  case Nil
  then show ?case by simp
next
  case (Cons x xs)
  show ?case
  proof (cases "applicable sv c x")
    case False
    have "signature_loop sv c (x # xs) None = signature_loop sv c xs None"
      by (rule loop_skip[OF False])
    then show ?thesis
      using Cons.IH by (simp only: find_newest_skip[OF False])
  next
    case app: True
    have "signature_loop sv c (x # xs) None = signature_loop sv c xs (Some x)"
      by (rule loop_first[OF app])
    also have "\<dots> = (if \<exists>y \<in> set xs. applicable sv c y \<and> \<not> since_le sv y x
         then find (newest_applicable sv c xs) xs else Some x)"
      by (rule loop_some[OF app])
    also have "\<dots> = find (newest_applicable sv c (x # xs)) (x # xs)"
      by (rule find_newest_head[OF app, symmetric])
    finally show ?thesis .
  qed
qed

subsection \<open>The deprecation loop\<close>

lemma deprecation_loop_find:
  "deprecation_loop sv c deps = find (announced sv c) deps"
  by (induction deps) (auto simp: announced_def lt_def split: option.splits)

lemma getApiSpec_fields:
  assumes "getApiSpec sv store p e v = Inr (Some r)"
  shows "specs store (p @ [0x2F] @ e) = Some (spec r)"
    and "activeSignature r = findActiveSignature sv (spec r) v"
    and "activeDeprecation r = findActiveDeprecation sv (spec r) v"
    and "available r = isAvailable sv (spec r) v"
    and "available r \<Longrightarrow> \<not> isFuture r"
  using assms
  by (auto simp: getApiSpec_def Let_def split: option.splits sum.splits if_splits)

subsection \<open>The claims about the query\<close>

text \<open>
  C1, as stated, on the store with the deprecations of \<^verbatim>\<open>createFactory\<close> announced in
  16.13.0 and in 18.0.0, queried at 18.2.0: both entries have \<^verbatim>\<open>since\<close> at most the version,
  the claim gives the most recent one, of 18.0.0, and the query returns the one of 16.13.0.
\<close>

theorem activeDeprecation_counterexample:
  "getApiSpec demo_semver demo_store (js ''react'') (js ''createFactory'') (js ''18.2.0'') =
     Inr (Some \<lparr> spec = spec_createFactory, activeSignature = Some sig_one,
                 activeDeprecation = Some dep_announced, available = True, isFuture = False \<rparr>)
   \<and> spec_activeDeprecation demo_semver (18, 2, 0) (deprecations spec_createFactory) = Some dep_removal
   \<and> dep_announced \<noteq> dep_removal"
  by code_simp

text \<open>
  C1, amended: for a version \<open>v\<close> that coerces to \<open>c\<close>, the \<^verbatim>\<open>activeDeprecation\<close> of the
  result of \<^verbatim>\<open>getApiSpec\<close> is the first entry, in the order of the specification's
  \<^verbatim>\<open>deprecations\<close>, whose \<^verbatim>\<open>since\<close> coerces to a version at most \<open>c\<close>, and it is absent
  when there is no such entry: of two entries with \<^verbatim>\<open>since\<close> at most \<open>v\<close> the earlier in the
  sequence is returned.
\<close>

theorem activeDeprecation_first_announced:
  assumes "getApiSpec sv store p e v = Inr (Some r)"
    and "coerce sv v = Some c"
  shows "activeDeprecation r = find (announced sv c) (deprecations (spec r))"
  using assms getApiSpec_fields(3)[OF assms(1)]
  by (simp add: findActiveDeprecation_def deprecation_loop_find)

theorem activeDeprecation_first_announced_witness:
  "getApiSpec demo_semver demo_store (js ''react'') (js ''createFactory'') (js ''18.2.0'') =
     Inr (Some \<lparr> spec = spec_createFactory, activeSignature = Some sig_one,
                 activeDeprecation = Some dep_announced, available = True, isFuture = False \<rparr>)
   \<and> coerce demo_semver (js ''18.2.0'') = Some (18, 2, 0)
   \<and> find (announced demo_semver (18, 2, 0)) (deprecations spec_createFactory) = Some dep_announced"
proof -
  have q: "getApiSpec demo_semver demo_store (js ''react'') (js ''createFactory'') (js ''18.2.0'') =
     Inr (Some \<lparr> spec = spec_createFactory, activeSignature = Some sig_one,
                 activeDeprecation = Some dep_announced, available = True, isFuture = False \<rparr>)"
    by code_simp
  have c: "coerce demo_semver (js ''18.2.0'') = Some (18, 2, 0)"
    by code_simp
  show ?thesis
    using activeDeprecation_first_announced[OF q c] q c by simp
qed

text \<open>
  C3, as stated, on the two signatures of \<^verbatim>\<open>createFactory\<close>, both since 16.0.0, queried at
  18.2.0: the claim gives the last in declaration order, the query returns the first.
\<close>

theorem activeSignature_counterexample:
  "getApiSpec demo_semver demo_store (js ''react'') (js ''createFactory'') (js ''18.2.0'') =
     Inr (Some \<lparr> spec = spec_createFactory, activeSignature = Some sig_one,
                 activeDeprecation = Some dep_announced, available = True, isFuture = False \<rparr>)
   \<and> spec_activeSignature demo_semver (18, 2, 0) (signatures spec_createFactory) = Some sig_two
   \<and> sig_one \<noteq> sig_two"
  by code_simp

text \<open>
  C3, amended: for a version \<open>v\<close> that coerces to \<open>c\<close>, the \<^verbatim>\<open>activeSignature\<close> of the result
  of \<^verbatim>\<open>getApiSpec\<close> is the signature with the greatest \<^verbatim>\<open>since\<close> among those with
  \<^verbatim>\<open>since\<close> at most \<open>v\<close> and no \<^verbatim>\<open>until\<close> or \<open>v\<close> below \<^verbatim>\<open>until\<close> (a \<^verbatim>\<open>since\<close> that does not
  coerce excludes the signature, an \<^verbatim>\<open>until\<close> that is empty or does not coerce counts as
  none); when several such signatures share the greatest \<^verbatim>\<open>since\<close>, the one first in
  declaration order is chosen; it is absent when no signature applies.
\<close>

theorem activeSignature_first_newest:
  assumes "getApiSpec sv store p e v = Inr (Some r)"
    and "coerce sv v = Some c"
  shows "activeSignature r =
           find (newest_applicable sv c (signatures (spec r))) (signatures (spec r))"
  using assms getApiSpec_fields(2)[OF assms(1)]
  by (simp add: findActiveSignature_def loop_none)

theorem activeSignature_first_newest_witness:
  "getApiSpec demo_semver demo_store (js ''react'') (js ''createFactory'') (js ''18.2.0'') =
     Inr (Some \<lparr> spec = spec_createFactory, activeSignature = Some sig_one,
                 activeDeprecation = Some dep_announced, available = True, isFuture = False \<rparr>)
   \<and> coerce demo_semver (js ''18.2.0'') = Some (18, 2, 0)
   \<and> find (newest_applicable demo_semver (18, 2, 0) (signatures spec_createFactory))
        (signatures spec_createFactory) = Some sig_one"
proof -
  have q: "getApiSpec demo_semver demo_store (js ''react'') (js ''createFactory'') (js ''18.2.0'') =
     Inr (Some \<lparr> spec = spec_createFactory, activeSignature = Some sig_one,
                 activeDeprecation = Some dep_announced, available = True, isFuture = False \<rparr>)"
    by code_simp
  have c: "coerce demo_semver (js ''18.2.0'') = Some (18, 2, 0)"
    by code_simp
  show ?thesis
    using activeSignature_first_newest[OF q c] q c by simp
qed

text \<open>
  C4: for a key known to the store and a version string that does not coerce,
  \<^verbatim>\<open>getApiSpec\<close> does not return \<^verbatim>\<open>undefined\<close> (nor throw) but a result with
  \<^verbatim>\<open>available = false\<close>, \<^verbatim>\<open>isFuture = false\<close>, no active signature and no active
  deprecation.
\<close>

theorem getApiSpec_uncoercible:
  assumes "specs store (p @ [0x2F] @ e) = Some sp"
    and "coerce sv v = None"
  shows "getApiSpec sv store p e v =
           Inr (Some \<lparr> spec = sp, activeSignature = None, activeDeprecation = None,
                       available = False, isFuture = False \<rparr>)"
  using assms
  by (simp add: getApiSpec_def isAvailable_def isFutureApi_def findActiveSignature_def
      findActiveDeprecation_def)

theorem getApiSpec_uncoercible_witness:
  "specs demo_store (js ''react'' @ [0x2F] @ js ''useId'') = Some spec_useId
   \<and> coerce demo_semver (js ''latest'') = None
   \<and> getApiSpec demo_semver demo_store (js ''react'') (js ''useId'') (js ''latest'') =
       Inr (Some \<lparr> spec = spec_useId, activeSignature = None, activeDeprecation = None,
                   available = False, isFuture = False \<rparr>)"
proof -
  have k: "specs demo_store (js ''react'' @ [0x2F] @ js ''useId'') = Some spec_useId"
    by code_simp
  have c: "coerce demo_semver (js ''latest'') = None"
    by code_simp
  show ?thesis
    using getApiSpec_uncoercible[OF k c] k c by simp
qed

text \<open>
  C5: the result of \<^verbatim>\<open>getApiSpec\<close> never has \<^verbatim>\<open>available = true\<close> and
  \<^verbatim>\<open>isFuture = true\<close> at the same time, for every store, key and version string.
\<close>

theorem available_isFuture_exclusive:
  assumes "getApiSpec sv store p e v = Inr (Some r)"
  shows "\<not> (available r \<and> isFuture r)"
  using getApiSpec_fields(5)[OF assms] by blast

theorem available_isFuture_exclusive_witness:
  "getApiSpec demo_semver demo_store (js ''react'') (js ''useId'') (js ''17.0.2'') =
     Inr (Some \<lparr> spec = spec_useId, activeSignature = None, activeDeprecation = None,
                 available = False, isFuture = True \<rparr>)
   \<and> \<not> (available \<lparr> spec = spec_useId, activeSignature = None, activeDeprecation = None,
                     available = False, isFuture = True \<rparr>
        \<and> isFuture \<lparr> spec = spec_useId, activeSignature = None, activeDeprecation = None,
                     available = False, isFuture = True \<rparr>)"
proof -
  have q: "getApiSpec demo_semver demo_store (js ''react'') (js ''useId'') (js ''17.0.2'') =
     Inr (Some \<lparr> spec = spec_useId, activeSignature = None, activeDeprecation = None,
                 available = False, isFuture = True \<rparr>)"
    by code_simp
  show ?thesis
    using available_isFuture_exclusive[OF q] q by blast
qed

section \<open>The query as a call: proofs\<close>

subsection \<open>The store after a query\<close>

lemma in_semver_store: "store_object (snd (in_semver f w)) = store_object w"
  by (simp add: in_semver_def split_beta)

lemma isAvailable_call_store: "store_object (snd (isAvailable_call sv sp v w)) = store_object w"
  by (simp add: isAvailable_call_def split_beta in_semver_store split: option.splits)

lemma isFutureApi_call_store: "store_object (snd (isFutureApi_call sv sp v w)) = store_object w"
  by (simp add: isFutureApi_call_def split_beta in_semver_store split: option.splits sum.splits)

lemma until_reached_call_store:
  "store_object (snd (until_reached_call sv c sig w)) = store_object w"
  by (simp add: until_reached_call_def split_beta in_semver_store split: option.splits)

lemma replaces_best_call_store:
  "store_object (snd (replaces_best_call sv s best w)) = store_object w"
  by (simp add: replaces_best_call_def split_beta in_semver_store split: option.splits)

lemma signature_loop_call_store:
  "store_object (snd (signature_loop_call sv c sigs best w)) = store_object w"
proof (induction sigs arbitrary: best w)
  case Nil
  show ?case by simp
next
  case (Cons sig sigs)
  show ?case
    by (simp add: split_beta Cons.IH in_semver_store until_reached_call_store
        replaces_best_call_store split: option.splits sum.splits bool.splits)
qed

lemma findActiveSignature_call_store:
  "store_object (snd (findActiveSignature_call sv sp v w)) = store_object w"
  by (simp add: findActiveSignature_call_def split_beta in_semver_store signature_loop_call_store
      split: option.splits)

lemma deprecation_loop_call_store:
  "store_object (snd (deprecation_loop_call sv c deps w)) = store_object w"
proof (induction deps arbitrary: w)
  case Nil
  show ?case by simp
next
  case (Cons dep deps)
  show ?case
    by (simp add: split_beta Cons.IH in_semver_store split: option.splits)
qed

lemma findActiveDeprecation_call_store:
  "store_object (snd (findActiveDeprecation_call sv sp v w)) = store_object w"
  by (simp add: findActiveDeprecation_call_def split_beta in_semver_store
      deprecation_loop_call_store split: option.splits)

lemma getApiSpec_call_store:
  "store_object (snd (getApiSpec_call sv p e v w)) = store_object w"
  by (simp add: getApiSpec_call_def Let_def split_beta isAvailable_call_store
      isFutureApi_call_store findActiveSignature_call_store findActiveDeprecation_call_store
      split: option.splits sum.splits)


subsection \<open>The result of a query\<close>

lemma in_semver_fst: "fst (in_semver f w) = fst (f (semver_state w))"
  by (simp add: in_semver_def split_beta)

lemma stateless_answers:
  assumes "stateless sv"
  shows "fst (coerce_call sv x a) = coerce (answers sv s) x"
    and "fst (satisfies_call sv v r a) = satisfies (answers sv s) v r"
    and "fst (minVersion_call sv r a) = minVersion (answers sv s) r"
proof -
  show "fst (coerce_call sv x a) = coerce (answers sv s) x"
    using assms unfolding stateless_def answers_def by (simp; blast)
  show "fst (satisfies_call sv v r a) = satisfies (answers sv s) v r"
    using assms unfolding stateless_def answers_def by (simp; blast)
  show "fst (minVersion_call sv r a) = minVersion (answers sv s) r"
    using assms unfolding stateless_def answers_def by (simp; blast)
qed

lemma isAvailable_call_fst:
  assumes "stateless sv"
  shows "fst (isAvailable_call sv sp v w) = isAvailable (answers sv s) sp v"
  by (simp add: isAvailable_call_def isAvailable_def split_beta in_semver_fst
      stateless_answers[OF assms, where s = s] split: option.splits)

lemma isFutureApi_call_fst:
  assumes "stateless sv"
  shows "fst (isFutureApi_call sv sp v w) = isFutureApi (answers sv s) sp v"
  by (simp add: isFutureApi_call_def isFutureApi_def split_beta in_semver_fst
      stateless_answers[OF assms, where s = s] split: option.splits sum.splits)

lemma until_reached_call_fst:
  assumes "stateless sv"
  shows "fst (until_reached_call sv c sig w) =
           (case until sig of
              None \<Rightarrow> False
            | Some u \<Rightarrow> truthy u \<and>
                (case coerce (answers sv s) u of
                   None \<Rightarrow> False
                 | Some untilSemver \<Rightarrow> gte c untilSemver))"
  by (simp add: until_reached_call_def split_beta in_semver_fst
      stateless_answers[OF assms, where s = s] split: option.splits)

lemma replaces_best_call_fst:
  assumes "stateless sv"
  shows "fst (replaces_best_call sv since best w) =
           Inr (case best of
                  None \<Rightarrow> True
                | Some b \<Rightarrow>
                    (case coerce (answers sv s) (sig_since b) of
                       None \<Rightarrow> True
                     | Some bestSince \<Rightarrow> gt since bestSince))"
  by (simp add: replaces_best_call_def split_beta in_semver_fst
      stateless_answers[OF assms, where s = s] split: option.splits)

lemma signature_loop_call_fst:
  assumes "stateless sv"
  shows "fst (signature_loop_call sv c sigs best w) = Inr (signature_loop (answers sv s) c sigs best)"
proof (induction sigs arbitrary: best w)
  case Nil
  show ?case by simp
next
  case (Cons sig sigs)
  show ?case
    by (simp add: split_beta Cons.IH in_semver_fst until_reached_call_fst[OF assms, where s = s]
        replaces_best_call_fst[OF assms, where s = s] stateless_answers[OF assms, where s = s]
        split: option.splits sum.splits bool.splits)
qed

lemma findActiveSignature_call_fst:
  assumes "stateless sv"
  shows "fst (findActiveSignature_call sv sp v w) = Inr (findActiveSignature (answers sv s) sp v)"
  by (simp add: findActiveSignature_call_def findActiveSignature_def split_beta in_semver_fst
      signature_loop_call_fst[OF assms, where s = s] stateless_answers[OF assms, where s = s]
      split: option.splits)

lemma deprecation_loop_call_fst:
  assumes "stateless sv"
  shows "fst (deprecation_loop_call sv c deps w) = deprecation_loop (answers sv s) c deps"
proof (induction deps arbitrary: w)
  case Nil
  show ?case by simp
next
  case (Cons dep deps)
  show ?case
    by (simp add: split_beta Cons.IH in_semver_fst stateless_answers[OF assms, where s = s]
        split: option.splits)
qed

lemma findActiveDeprecation_call_fst:
  assumes "stateless sv"
  shows "fst (findActiveDeprecation_call sv sp v w) = findActiveDeprecation (answers sv s) sp v"
  by (simp add: findActiveDeprecation_call_def findActiveDeprecation_def split_beta in_semver_fst
      deprecation_loop_call_fst[OF assms, where s = s] stateless_answers[OF assms, where s = s]
      split: option.splits)

lemma getApiSpec_call_fst:
  assumes "stateless sv"
  shows "fst (getApiSpec_call sv p e v w) = getApiSpec (answers sv s) (store_object w) p e v"
  by (simp add: getApiSpec_call_def getApiSpec_def Let_def split_beta
      isAvailable_call_fst[OF assms, where s = s] isFutureApi_call_fst[OF assms, where s = s]
      findActiveSignature_call_fst[OF assms, where s = s]
      findActiveDeprecation_call_fst[OF assms, where s = s]
      split: option.splits sum.splits)

text \<open>
  C9: a call of \<^verbatim>\<open>getApiSpec\<close> leaves the store object as it was, whatever the
  \<^verbatim>\<open>semver\<close> module does in its own state; and when the answers of the \<^verbatim>\<open>semver\<close>
  module do not depend on that state, a second call with the same arguments, in the state the
  first call left, returns the same result as the first.
\<close>

theorem getApiSpec_pure:
  "store_object (snd (getApiSpec_call sv p e v w)) = store_object w
   \<and> (stateless sv \<longrightarrow>
        fst (getApiSpec_call sv p e v (snd (getApiSpec_call sv p e v w)))
          = fst (getApiSpec_call sv p e v w))"
proof (intro conjI impI)
  show "store_object (snd (getApiSpec_call sv p e v w)) = store_object w"
    by (rule getApiSpec_call_store)
next
  assume s: "stateless sv"
  show "fst (getApiSpec_call sv p e v (snd (getApiSpec_call sv p e v w)))
          = fst (getApiSpec_call sv p e v w)"
    by (simp add: getApiSpec_call_fst[OF s, where s = "semver_state w"] getApiSpec_call_store)
qed

theorem getApiSpec_pure_witness:
  "stateless counting_semver
   \<and> store_object (snd (getApiSpec_call counting_semver (js ''react'') (js ''createFactory'')
         (js ''18.2.0'') \<lparr> store_object = demo_store, semver_state = 0 \<rparr>)) = demo_store
   \<and> fst (getApiSpec_call counting_semver (js ''react'') (js ''createFactory'') (js ''18.2.0'')
         (snd (getApiSpec_call counting_semver (js ''react'') (js ''createFactory'')
            (js ''18.2.0'') \<lparr> store_object = demo_store, semver_state = 0 \<rparr>)))
       = fst (getApiSpec_call counting_semver (js ''react'') (js ''createFactory'')
            (js ''18.2.0'') \<lparr> store_object = demo_store, semver_state = 0 \<rparr>)
   \<and> semver_state (snd (getApiSpec_call counting_semver (js ''react'') (js ''createFactory'')
         (js ''18.2.0'') \<lparr> store_object = demo_store, semver_state = 0 \<rparr>)) = 9"
proof -
  have s: "stateless counting_semver"
    by (simp add: stateless_def counting_semver_def)
  have n: "semver_state (snd (getApiSpec_call counting_semver (js ''react'')
        (js ''createFactory'') (js ''18.2.0'')
        \<lparr> store_object = demo_store, semver_state = 0 \<rparr>)) = 9"
    by code_simp
  show ?thesis
    using getApiSpec_pure[of counting_semver "js ''react''" "js ''createFactory''"
        "js ''18.2.0''" "\<lparr> store_object = demo_store, semver_state = 0 \<rparr>"] s n
    by simp
qed

section \<open>Long identifiers: proofs\<close>

subsection \<open>Numbers and their decimal text\<close>

lemma unat_of_nat16: "n < 65536 \<Longrightarrow> unat (of_nat n :: jschar) = n"
  by (simp add: unat_of_nat)

lemma unat_digit_char: "d < 10 \<Longrightarrow> unat (digit_char d) = 48 + d"
  unfolding digit_char_def by (rule unat_of_nat16) simp

lemma isDigit_unat: "isDigit ch \<longleftrightarrow> 48 \<le> unat ch \<and> unat ch \<le> 57"
  by (simp add: isDigit_def word_le_nat_alt)

lemma isDigit_digit_char: "d < 10 \<Longrightarrow> isDigit (digit_char d)"
  by (simp add: isDigit_unat unat_digit_char)

lemma digit_char_value: "d < 10 \<Longrightarrow> unat (digit_char d - 0x30) = d"
proof -
  assume d: "d < 10"
  have "digit_char d - 0x30 = (of_nat d :: jschar)"
    by (simp add: digit_char_def)
  then show ?thesis using d by (simp add: unat_of_nat16)
qed

lemma nat_digits_ne: "nat_digits n \<noteq> []"
  by (subst nat_digits.simps) simp

lemma nat_digits_all: "list_all isDigit (nat_digits n)"
proof (induction n rule: nat_digits.induct)
  case (1 n)
  show ?case
  proof (cases "n < 10")
    case True
    then show ?thesis by (subst nat_digits.simps) (simp add: isDigit_digit_char)
  next
    case False
    then show ?thesis using 1 by (subst nat_digits.simps) (simp add: isDigit_digit_char)
  qed
qed

lemma digits_value_snoc: "digits_value (ds @ [ch]) = 10 * digits_value ds + unat (ch - 0x30)"
  by (simp add: digits_value_def)

lemma digits_value_nat_digits: "digits_value (nat_digits n) = n"
proof (induction n rule: nat_digits.induct)
  case (1 n)
  show ?case
  proof (cases "n < 10")
    case True
    then show ?thesis by (subst nat_digits.simps) (simp add: digits_value_def digit_char_value)
  next
    case False
    then have "digits_value (nat_digits (n div 10)) = n div 10" using 1 by simp
    then show ?thesis using False
      by (subst nat_digits.simps) (simp add: digits_value_snoc digit_char_value)
  qed
qed

lemma isDigit_not_space: "isDigit ch \<Longrightarrow> \<not> isSpace ch"
  by (auto simp: isDigit_unat isSpace_def word_le_nat_alt)

lemma isDigit_not_sign: "isDigit ch \<Longrightarrow> ch \<noteq> 0x2D \<and> ch \<noteq> 0x2B \<and> ch \<noteq> 0x3A \<and> ch \<noteq> 0x2F"
  by (auto simp: isDigit_unat)

lemma isDigit_isDot: "isDigit ch \<Longrightarrow> isDot ch"
  by (auto simp: isDigit_unat isDot_def)

lemma takeWhile_all: "list_all P xs \<Longrightarrow> takeWhile P xs = xs"
  by (induction xs) auto

lemma parseInt10_digits:
  assumes "ds \<noteq> []" and "list_all isDigit ds" and "int (digits_value ds) \<le> MAX_SAFE_INTEGER"
  shows "parseInt10 nb ds = Integer (int (digits_value ds))"
proof -
  obtain d rest where ds: "ds = d # rest" using assms(1) by (cases ds) auto
  then have d: "isDigit d" using assms(2) by simp
  have dw: "dropWhile isSpace ds = ds" using ds isDigit_not_space[OF d] by simp
  have ns: "\<not> startsWith ds [0x2D]" "\<not> startsWith ds [0x2B]"
    using ds isDigit_not_sign[OF d] by (simp_all add: startsWith_def)
  have tw: "takeWhile isDigit ds = ds" using assms(2) by (rule takeWhile_all)
  have safe: "isSafeInteger (int (digits_value ds))"
    using assms(3) by (simp add: isSafeInteger_def MAX_SAFE_INTEGER_def)
  show ?thesis by (simp add: parseInt10_def Let_def dw ns tw assms(1) safe)
qed

lemma MAX_SAFE_INTEGER_power: "MAX_SAFE_INTEGER = 2 ^ 53 - 1"
  by (simp add: MAX_SAFE_INTEGER_def)

lemma isSafeInteger_nonneg: "0 \<le> n \<Longrightarrow> n \<le> MAX_SAFE_INTEGER \<Longrightarrow> isSafeInteger n"
  by (simp add: isSafeInteger_def MAX_SAFE_INTEGER_def)

lemma numToString_safe:
  "0 \<le> n \<Longrightarrow> n \<le> MAX_SAFE_INTEGER \<Longrightarrow> numToString nb (Integer n) = nat_digits (nat n)"
  by (simp add: isSafeInteger_nonneg)

lemma parseInt10_numToString:
  assumes "0 \<le> n" and "n \<le> MAX_SAFE_INTEGER"
  shows "parseInt10 nb (numToString nb' (Integer n)) = Integer n"
proof -
  have "int (digits_value (nat_digits (nat n))) \<le> MAX_SAFE_INTEGER"
    using assms by (simp add: digits_value_nat_digits)
  then have "parseInt10 nb (nat_digits (nat n)) = Integer (int (digits_value (nat_digits (nat n))))"
    by (rule parseInt10_digits[OF nat_digits_ne nat_digits_all])
  then show ?thesis
    using assms by (simp add: numToString_safe digits_value_nat_digits del: numToString.simps)
qed

subsection \<open>The matcher\<close>

lemma concat_map_Nil: "(\<And>x. x \<in> set xs \<Longrightarrow> f x = []) \<Longrightarrow> concat (map f xs) = []"
  by (induction xs) auto

text \<open>The first match of a sequence: the first end state of the head from which the rest
  matches.\<close>

lemma ms_Seq_first:
  assumes "ms a st = pre @ x # post"
    and "\<And>y. y \<in> set pre \<Longrightarrow> ms b y = []"
    and "ms b x = z # zs"
  shows "\<exists>others. ms (Seq a b) st = z # others"
proof -
  have c: "concat (map (ms b) pre) = []" using assms(2) by (rule concat_map_Nil)
  show ?thesis by (simp add: assms(1,3) c)
qed

lemma ms_Seq_head:
  assumes "ms a st = x # post" and "ms b x = z # zs"
  shows "\<exists>others. ms (Seq a b) st = z # others"
  using ms_Seq_first[of a st "[]" x post b z zs] assms by simp

lemma ms_Lit_append: "ms (Lit l) (i, l @ t, c) = [(i + length l, t, c)]"
  by (simp add: startsWith_def)

lemma upt_rev_split:
  assumes "Suc 0 \<le> m" and "m \<le> n"
  shows "rev [Suc 0 ..< Suc n] = rev [Suc m ..< Suc n] @ m # rev [Suc 0 ..< m]"
proof -
  have "[Suc 0 ..< m + (Suc n - m)] = [Suc 0 ..< m] @ [m ..< m + (Suc n - m)]"
    using assms(1) by (rule upt_add_eq_append)
  then have "[Suc 0 ..< Suc n] = [Suc 0 ..< m] @ [m ..< Suc n]"
    using assms(2) by simp
  also have "[m ..< Suc n] = m # [Suc m ..< Suc n]"
    using assms by (simp add: upt_conv_Cons)
  finally show ?thesis by simp
qed

lemma ms_Plus_split:
  assumes "length (takeWhile p s) = n" and "Suc 0 \<le> m" and "m \<le> n"
  shows "ms (Plus p) (i, s, c) =
           map (\<lambda>k. (i + k, drop k s, c)) (rev [Suc m ..< Suc n])
           @ (i + m, drop m s, c) # map (\<lambda>k. (i + k, drop k s, c)) (rev [Suc 0 ..< m])"
  using assms(1) by (simp add: upt_rev_split[OF assms(2,3)] del: upt_Suc)

lemma ms_Group_split:
  assumes "length (takeWhile p s) = n" and "Suc 0 \<le> m" and "m \<le> n"
  shows "ms (Group g (Plus p)) (i, s, c) =
           map (\<lambda>k. (i + k, drop k s, (g, take k s) # c)) (rev [Suc m ..< Suc n])
           @ (i + m, drop m s, (g, take m s) # c)
           # map (\<lambda>k. (i + k, drop k s, (g, take k s) # c)) (rev [Suc 0 ..< m])"
  by (simp add: ms_Plus_split[OF assms] comp_def del: ms.simps(2) upt_Suc)

text \<open>A group whose class stops at the end of the captured text: the longest run is the
  first candidate.\<close>

lemma takeWhile_stop:
  "list_all p a \<Longrightarrow> (t = [] \<or> \<not> p (hd t)) \<Longrightarrow> takeWhile p (a @ t) = a"
  by (induction a) (auto simp: neq_Nil_conv takeWhile_eq_Nil_iff)

lemma ms_Group_longest:
  assumes "list_all p a" and "a \<noteq> []" and "t = [] \<or> \<not> p (hd t)"
  shows "\<exists>others. ms (Group g (Plus p)) (i, a @ t, c) = (i + length a, t, (g, a) # c) # others"
proof -
  have n: "length (takeWhile p (a @ t)) = length a"
    using takeWhile_stop[OF assms(1,3)] by simp
  have m: "Suc 0 \<le> length a" using assms(2) by (cases a) auto
  show ?thesis
    using ms_Group_split[OF n m le_refl, of g i c] by (simp del: ms.simps upt_Suc)
qed


subsection \<open>The pattern of long identifiers\<close>

text \<open>The end of the pattern, \<^verbatim>\<open>:(\d+):(\d+)$\<close>, on a line and a column.\<close>

lemma tail_match:
  assumes "list_all isDigit L" "L \<noteq> []" "list_all isDigit C" "C \<noteq> []"
  shows "\<exists>j others.
           ms (seq [Lit [0x3A], Group 4 (Plus isDigit), Lit [0x3A], Group 5 (Plus isDigit), Eol])
              (i, [0x3A] @ L @ [0x3A] @ C, c)
           = (j, [], (5, C) # (4, L) # c) # others"
proof -
  let ?c4 = "(4, L) # c"
  obtain o5 where g5: "\<And>j. ms (Group 5 (Plus isDigit)) (j, C @ [], ?c4)
      = (j + length C, [], (5, C) # ?c4) # o5 j"
    using ms_Group_longest[OF assms(3,4), of "[]" 5 _ ?c4] by (auto simp del: ms.simps) metis
  have e: "\<And>j. ms Eol (j, [], (5, C) # ?c4) = [(j, [], (5, C) # ?c4)]" by simp
  have s5: "\<And>j. \<exists>others. ms (Seq (Group 5 (Plus isDigit)) Eol) (j, C, ?c4)
      = (j + length C, [], (5, C) # ?c4) # others"
    using ms_Seq_head[OF _ e] g5 by (metis append_Nil2)
  have l2: "\<And>j. ms (Lit [0x3A]) (j, [0x3A] @ C, ?c4) = [(j + 1, C, ?c4)]"
    using ms_Lit_append[of "[0x3A]"] by simp
  have s4: "\<And>j. \<exists>others. ms (Seq (Lit [0x3A]) (Seq (Group 5 (Plus isDigit)) Eol)) (j, [0x3A] @ C, ?c4)
      = (j + 1 + length C, [], (5, C) # ?c4) # others"
    using ms_Seq_head[OF l2] s5 by metis
  have nd: "\<not> isDigit (hd ([0x3A] @ C))" by (simp add: isDigit_unat)
  obtain o4 where g4: "\<And>j. ms (Group 4 (Plus isDigit)) (j, L @ [0x3A] @ C, c)
      = (j + length L, [0x3A] @ C, ?c4) # o4 j"
    using ms_Group_longest[OF assms(1,2), of "[0x3A] @ C" 4 _ c] nd
    by (auto simp del: ms.simps) metis
  have s3: "\<And>j. \<exists>k others. ms (Seq (Group 4 (Plus isDigit))
        (Seq (Lit [0x3A]) (Seq (Group 5 (Plus isDigit)) Eol))) (j, L @ [0x3A] @ C, c)
      = (k, [], (5, C) # ?c4) # others"
    using ms_Seq_head[OF g4] s4 by metis
  have l1: "ms (Lit [0x3A]) (i, [0x3A] @ L @ [0x3A] @ C, c) = [(i + 1, L @ [0x3A] @ C, c)]"
    using ms_Lit_append[of "[0x3A]"] by simp
  show ?thesis
    unfolding seq.simps using ms_Seq_head[OF l1] s3 by metis
qed


text \<open>The end of the pattern needs two colons in what is left of the input.\<close>

lemma ms_Seq_set: "x \<in> set (ms (Seq a b) st) \<longleftrightarrow> (\<exists>y \<in> set (ms a st). x \<in> set (ms b y))"
  by auto

lemma ms_Lit_set:
  "y \<in> set (ms (Lit l) (i, t, c)) \<Longrightarrow> \<exists>t'. t = l @ t' \<and> y = (i + length l, t', c)"
  by (auto simp: startsWith_def split: if_splits) (metis append_take_drop_id)

lemma ms_Group_set:
  "y \<in> set (ms (Group g (Plus p)) (i, t, c)) \<Longrightarrow>
     \<exists>k. y = (i + k, drop k t, (g, take k t) # c)"
  by auto

lemma count_drop: "length (filter P (drop k xs)) \<le> length (filter P xs)"
proof -
  have "length (filter P xs) = length (filter P (take k xs)) + length (filter P (drop k xs))"
    by (metis append_take_drop_id filter_append length_append)
  then show ?thesis by simp
qed

lemma tail_needs_two_colons:
  assumes "length (filter (\<lambda>ch. ch = 0x3A) t) < 2"
  shows "ms (seq [Lit [0x3A], Group 4 (Plus isDigit), Lit [0x3A], Group 5 (Plus isDigit), Eol])
            (i, t, c) = []"
proof (rule ccontr)
  assume "ms (seq [Lit [0x3A], Group 4 (Plus isDigit), Lit [0x3A], Group 5 (Plus isDigit), Eol])
            (i, t, c) \<noteq> []"
  then obtain x where "x \<in> set (ms (Seq (Lit [0x3A]) (Seq (Group 4 (Plus isDigit))
        (Seq (Lit [0x3A]) (Seq (Group 5 (Plus isDigit)) Eol)))) (i, t, c))"
    unfolding seq.simps by (meson last_in_set)
  then obtain y1 where y1: "y1 \<in> set (ms (Lit [0x3A]) (i, t, c))"
    and x1: "x \<in> set (ms (Seq (Group 4 (Plus isDigit))
        (Seq (Lit [0x3A]) (Seq (Group 5 (Plus isDigit)) Eol))) y1)"
    unfolding ms_Seq_set[of x "Lit [0x3A]"] by blast
  from ms_Lit_set[OF y1] obtain t1 where t1: "t = [0x3A] @ t1" "y1 = (i + length [0x3A::jschar], t1, c)"
    by blast
  from x1 obtain y2 where y2: "y2 \<in> set (ms (Group 4 (Plus isDigit)) y1)"
    and x2: "x \<in> set (ms (Seq (Lit [0x3A]) (Seq (Group 5 (Plus isDigit)) Eol)) y2)"
    unfolding ms_Seq_set[of x "Group 4 (Plus isDigit)"] by blast
  from ms_Group_set[OF y2[unfolded t1(2)]] obtain k where
    k: "y2 = (i + length [0x3A::jschar] + k, drop k t1, (4, take k t1) # c)" by blast
  from x2 obtain y3 where y3: "y3 \<in> set (ms (Lit [0x3A]) y2)"
    unfolding ms_Seq_set[of x "Lit [0x3A]"] by blast
  from ms_Lit_set[OF y3[unfolded k]] obtain t2 where t2: "drop k t1 = [0x3A] @ t2" by blast
  have "2 \<le> length (filter (\<lambda>ch. ch = 0x3A) ([0x3A] @ t1))"
    using count_drop[of "\<lambda>ch. ch = 0x3A" k t1] t2 by simp
  then show False using assms t1(1) by simp
qed

text \<open>The file group \<^verbatim>\<open>(.+)\<close> gives back what it took beyond the file path: every longer
  candidate leaves less than two colons.\<close>

lemma takeWhile_prefix: "list_all p a \<Longrightarrow> takeWhile p (a @ t) = a @ takeWhile p t"
  by (induction a) auto

lemma digits_no_colon: "list_all isDigit ds \<Longrightarrow> filter (\<lambda>ch. ch = 0x3A) ds = []"
  by (induction ds) (auto simp: isDigit_unat)

lemma file_match:
  assumes f: "list_all isDot F" "F \<noteq> []"
    and d: "list_all isDigit L" "L \<noteq> []" "list_all isDigit C" "C \<noteq> []"
  shows "\<exists>j others.
           ms (seq [Group 3 (Plus isDot), Lit [0x3A], Group 4 (Plus isDigit), Lit [0x3A],
                    Group 5 (Plus isDigit), Eol])
              (i, F @ [0x3A] @ L @ [0x3A] @ C, c)
           = (j, [], (5, C) # (4, L) # (3, F) # c) # others"
proof -
  let ?tl = "[0x3A] @ L @ [0x3A] @ C"
  let ?u = "F @ ?tl"
  let ?R = "seq [Lit [0x3A], Group 4 (Plus isDigit), Lit [0x3A], Group 5 (Plus isDigit), Eol]"
  define n where "n = length (takeWhile isDot ?u)"
  have mn: "length F \<le> n"
    unfolding n_def takeWhile_prefix[OF f(1)] by simp
  have m1: "Suc 0 \<le> length F" using f(2) by (cases F) auto
  let ?pre = "map (\<lambda>k. (i + k, drop k ?u, (3, take k ?u) # c)) (rev [Suc (length F) ..< Suc n])"
  let ?post = "map (\<lambda>k. (i + k, drop k ?u, (3, take k ?u) # c)) (rev [Suc 0 ..< length F])"
  have split: "ms (Group 3 (Plus isDot)) (i, ?u, c) =
      ?pre @ (i + length F, ?tl, (3, F) # c) # ?post"
    using ms_Group_split[OF n_def[symmetric] m1 mn, of 3 i c] by (simp del: ms.simps upt_Suc)
  have pre: "ms ?R y = []" if "y \<in> set ?pre" for y
  proof -
    from that obtain k where k: "length F < k" "y = (i + k, drop k ?u, (3, take k ?u) # c)"
      by auto
    have "drop k ?u = drop (k - length F - 1) (L @ [0x3A] @ C)"
      using k(1) by (cases "k - length F") auto
    moreover have "length (filter (\<lambda>ch. ch = 0x3A) (L @ [0x3A] @ C)) = 1"
      using digits_no_colon[OF d(1)] digits_no_colon[OF d(3)] by simp
    ultimately have "length (filter (\<lambda>ch. ch = 0x3A) (drop k ?u)) < 2"
      using count_drop[of "\<lambda>ch. ch = 0x3A" "k - length F - 1" "L @ [0x3A] @ C"] by simp
    then show ?thesis unfolding k(2) by (rule tail_needs_two_colons)
  qed
  obtain j others where tl: "ms ?R (i + length F, ?tl, (3, F) # c)
      = (j, [], (5, C) # (4, L) # (3, F) # c) # others"
    using tail_match[OF d] by blast
  have "\<exists>others. ms (Seq (Group 3 (Plus isDot)) ?R) (i, ?u, c)
      = (j, [], (5, C) # (4, L) # (3, F) # c) # others"
    using split pre tl by (rule ms_Seq_first)
  then show ?thesis unfolding seq.simps by blast
qed

text \<open>The whole pattern on a long identifier.\<close>

lemma LONG_ID_match:
  assumes p: "list_all (\<lambda>ch. ch \<noteq> 0x2F) P" "P \<noteq> []"
    and e: "list_all (\<lambda>ch. ch \<noteq> 0x3A) E" "E \<noteq> []"
    and f: "list_all isDot F" "F \<noteq> []"
    and d: "list_all isDigit L" "L \<noteq> []" "list_all isDigit C" "C \<noteq> []"
  shows "\<exists>j others.
           ms LONG_ID (0, js ''dxy:'' @ P @ [0x2F] @ E @ [0x3A] @ F @ [0x3A] @ L @ [0x3A] @ C, [])
           = (j, [], [(5, C), (4, L), (3, F), (2, E), (1, P)]) # others"
proof -
  let ?s3 = "F @ [0x3A] @ L @ [0x3A] @ C"
  let ?R3 = "seq [Group 3 (Plus isDot), Lit [0x3A], Group 4 (Plus isDigit), Lit [0x3A],
                    Group 5 (Plus isDigit), Eol]"
  let ?c2 = "[(2, E), (1, P)]"
  have r3: "\<And>i. \<exists>j others. ms ?R3 (i, ?s3, ?c2) = (j, [], (5, C) # (4, L) # (3, F) # ?c2) # others"
    using file_match[OF f d] by blast
  have l3: "\<And>i. ms (Lit [0x3A]) (i, [0x3A] @ ?s3, ?c2) = [(i + 1, ?s3, ?c2)]"
    using ms_Lit_append[of "[0x3A]"] by simp
  have r2': "\<And>i. \<exists>j others. ms (Seq (Lit [0x3A]) ?R3) (i, [0x3A] @ ?s3, ?c2)
      = (j, [], (5, C) # (4, L) # (3, F) # ?c2) # others"
    using ms_Seq_head[OF l3] r3 by metis
  have "\<not> (hd ([0x3A] @ ?s3) \<noteq> (0x3A::jschar))" by simp
  then obtain o2 where g2: "\<And>i. ms (Group 2 (Plus (\<lambda>ch. ch \<noteq> 0x3A))) (i, E @ [0x3A] @ ?s3, [(1, P)])
      = (i + length E, [0x3A] @ ?s3, ?c2) # o2 i"
    using ms_Group_longest[OF e, of "[0x3A] @ ?s3" 2 _ "[(1, P)]"]
    by (auto simp del: ms.simps) metis
  have r2: "\<And>i. \<exists>j others. ms (Seq (Group 2 (Plus (\<lambda>ch. ch \<noteq> 0x3A))) (Seq (Lit [0x3A]) ?R3))
        (i, E @ [0x3A] @ ?s3, [(1, P)])
      = (j, [], (5, C) # (4, L) # (3, F) # ?c2) # others"
    using ms_Seq_head[OF g2] r2' by metis
  let ?s2 = "E @ [0x3A] @ ?s3"
  let ?R2 = "Seq (Group 2 (Plus (\<lambda>ch. ch \<noteq> 0x3A))) (Seq (Lit [0x3A]) ?R3)"
  have l2: "\<And>i. ms (Lit [0x2F]) (i, [0x2F] @ ?s2, [(1, P)]) = [(i + 1, ?s2, [(1, P)])]"
    using ms_Lit_append[of "[0x2F]"] by simp
  have r1': "\<And>i. \<exists>j others. ms (Seq (Lit [0x2F]) ?R2) (i, [0x2F] @ ?s2, [(1, P)])
      = (j, [], (5, C) # (4, L) # (3, F) # ?c2) # others"
    using ms_Seq_head[OF l2] r2 by metis
  have "\<not> (hd ([0x2F] @ ?s2) \<noteq> (0x2F::jschar))" by simp
  then obtain o1 where g1: "\<And>i. ms (Group 1 (Plus (\<lambda>ch. ch \<noteq> 0x2F))) (i, P @ [0x2F] @ ?s2, [])
      = (i + length P, [0x2F] @ ?s2, [(1, P)]) # o1 i"
    using ms_Group_longest[OF p, of "[0x2F] @ ?s2" 1 _ "[]"]
    by (auto simp del: ms.simps) metis
  let ?R1 = "Seq (Group 1 (Plus (\<lambda>ch. ch \<noteq> 0x2F))) (Seq (Lit [0x2F]) ?R2)"
  let ?s1 = "P @ [0x2F] @ ?s2"
  have r1: "\<And>i. \<exists>j others. ms ?R1 (i, ?s1, [])
      = (j, [], (5, C) # (4, L) # (3, F) # ?c2) # others"
    using ms_Seq_head[OF g1] r1' by metis
  have l0: "ms (Lit (js ''dxy:'')) (0, js ''dxy:'' @ ?s1, []) = [(0 + length (js ''dxy:''), ?s1, [])]"
    by (rule ms_Lit_append)
  have r0: "\<exists>j others. ms (Seq (Lit (js ''dxy:'')) ?R1) (0, js ''dxy:'' @ ?s1, [])
      = (j, [], (5, C) # (4, L) # (3, F) # ?c2) # others"
    using ms_Seq_head[OF l0] r1 by metis
  have b: "ms Bol (0, js ''dxy:'' @ ?s1, []) = [(0, js ''dxy:'' @ ?s1, [])]" by simp
  have "\<exists>j others. ms (Seq Bol (Seq (Lit (js ''dxy:'')) ?R1)) (0, js ''dxy:'' @ ?s1, [])
      = (j, [], (5, C) # (4, L) # (3, F) # ?c2) # others"
    using ms_Seq_head[OF b] r0 by metis
  then show ?thesis unfolding LONG_ID_def seq.simps by simp
qed

lemma exec_LONG_ID:
  assumes "list_all (\<lambda>ch. ch \<noteq> 0x2F) P" "P \<noteq> []"
    and "list_all (\<lambda>ch. ch \<noteq> 0x3A) E" "E \<noteq> []"
    and "list_all isDot F" "F \<noteq> []"
    and "list_all isDigit L" "L \<noteq> []" "list_all isDigit C" "C \<noteq> []"
  shows "\<exists>j. exec LONG_ID (js ''dxy:'' @ P @ [0x2F] @ E @ [0x3A] @ F @ [0x3A] @ L @ [0x3A] @ C)
           = Some (0, j, [(5, C), (4, L), (3, F), (2, E), (1, P)])"
proof -
  obtain j others where
    "ms LONG_ID (0, js ''dxy:'' @ P @ [0x2F] @ E @ [0x3A] @ F @ [0x3A] @ L @ [0x3A] @ C, [])
       = (j, [], [(5, C), (4, L), (3, F), (2, E), (1, P)]) # others"
    using LONG_ID_match[OF assms] by blast
  then show ?thesis by (simp add: exec_def)
qed

lemma numToString_digits:
  assumes "0 \<le> n" and "n \<le> MAX_SAFE_INTEGER"
  shows "list_all isDigit (numToString nb (Integer n)) \<and> numToString nb (Integer n) \<noteq> []"
  by (simp add: numToString_safe[OF assms] nat_digits_all nat_digits_ne del: numToString.simps)

text \<open>
  C2, as stated, on the scoped package of the claim: the pattern ends the package at the first
  slash, so the parsed package is \<^verbatim>\<open>@tanstack\<close> and the parsed export
  \<^verbatim>\<open>react-query/useQuery\<close>, not the input pair. The test of the repository records
  this as a known limitation.
\<close>

theorem parseLongId_counterexample:
  "parseLongId beyond_examples
     (makeLongId beyond_examples (js ''@tanstack/react-query'') (js ''useQuery'')
        (js ''src/hooks.ts'') (Integer 10) (Integer 0))
     = Some \<lparr> lid_package = js ''@tanstack'', lid_export = js ''react-query/useQuery'',
              lid_file = js ''src/hooks.ts'', lid_line = Integer 10, lid_column = Integer 0 \<rparr>
   \<and> js ''@tanstack'' \<noteq> js ''@tanstack/react-query''"
  by code_simp

text \<open>
  C2, amended: \<^verbatim>\<open>parseLongId(makeLongId(pkg, export, file, line, col))\<close> is defined and
  equals the input tuple whenever the package is not empty and contains no slash, the export
  is not empty and contains no colon, the file path is not empty and contains no line
  terminator, and the line and the column are safe integers that are not negative, that is
  integers from \<open>0\<close> to \<^verbatim>\<open>Number.MAX_SAFE_INTEGER\<close>. This holds whatever the built-in
  conversions do beyond the safe integers. A scoped package, which contains a slash, is
  outside these conditions.
\<close>

theorem parseLongId_makeLongId:
  assumes "pkg \<noteq> []" and "0x2F \<notin> set pkg"
    and "exportName \<noteq> []" and "0x3A \<notin> set exportName"
    and "file \<noteq> []" and "list_all isDot file"
    and "0 \<le> line" and "line \<le> MAX_SAFE_INTEGER"
    and "0 \<le> col" and "col \<le> MAX_SAFE_INTEGER"
  shows "parseLongId nb (makeLongId nb pkg exportName file (Integer line) (Integer col))
           = Some \<lparr> lid_package = pkg, lid_export = exportName, lid_file = file,
                    lid_line = Integer line, lid_column = Integer col \<rparr>"
proof -
  let ?L = "numToString nb (Integer line)" and ?C = "numToString nb (Integer col)"
  have p: "list_all (\<lambda>ch. ch \<noteq> 0x2F) pkg" using assms(2) by (auto simp: list_all_iff)
  have e: "list_all (\<lambda>ch. ch \<noteq> 0x3A) exportName" using assms(4) by (auto simp: list_all_iff)
  have l: "list_all isDigit ?L" "?L \<noteq> []"
    using numToString_digits[OF assms(7,8)] by simp_all
  have c: "list_all isDigit ?C" "?C \<noteq> []"
    using numToString_digits[OF assms(9,10)] by simp_all
  obtain j where
    m: "exec LONG_ID (makeLongId nb pkg exportName file (Integer line) (Integer col))
          = Some (0, j, [(5, ?C), (4, ?L), (3, file), (2, exportName), (1, pkg)])"
    unfolding makeLongId_def
    using exec_LONG_ID[OF p assms(1) e assms(3) assms(6) assms(5) l c] by blast
  have pl: "parseInt10 nb ?L = Integer line" using assms(7,8) by (rule parseInt10_numToString)
  have pc: "parseInt10 nb ?C = Integer col" using assms(9,10) by (rule parseInt10_numToString)
  show ?thesis
    unfolding parseLongId_def m
    using assms(1,3,5) l(2) c(2)
    by (simp add: capture_def falsy_def truthy_def Let_def pl pc del: numToString.simps)
qed

theorem parseLongId_makeLongId_witness:
  "js ''react'' \<noteq> [] \<and> 0x2F \<notin> set (js ''react'')
   \<and> js ''createFactory'' \<noteq> [] \<and> 0x3A \<notin> set (js ''createFactory'')
   \<and> js ''src/App.tsx'' \<noteq> [] \<and> list_all isDot (js ''src/App.tsx'')
   \<and> (0::int) \<le> 14 \<and> 14 \<le> MAX_SAFE_INTEGER \<and> (0::int) \<le> 5 \<and> 5 \<le> MAX_SAFE_INTEGER
   \<and> parseLongId beyond_examples
        (makeLongId beyond_examples (js ''react'') (js ''createFactory'') (js ''src/App.tsx'')
           (Integer 14) (Integer 5))
       = Some \<lparr> lid_package = js ''react'', lid_export = js ''createFactory'',
                lid_file = js ''src/App.tsx'', lid_line = Integer 14, lid_column = Integer 5 \<rparr>"
proof -
  have h: "js ''react'' \<noteq> []" "0x2F \<notin> set (js ''react'')"
    "js ''createFactory'' \<noteq> []" "0x3A \<notin> set (js ''createFactory'')"
    "js ''src/App.tsx'' \<noteq> []" "list_all isDot (js ''src/App.tsx'')"
    "(0::int) \<le> 14" "14 \<le> MAX_SAFE_INTEGER" "(0::int) \<le> 5" "5 \<le> MAX_SAFE_INTEGER"
    by (simp_all add: js_def isDot_def MAX_SAFE_INTEGER_def)
  show ?thesis
    using parseLongId_makeLongId[OF h] h by simp
qed

section \<open>Inline suppression parser: proofs\<close>



















section \<open>Import resolver: proofs\<close>

subsection \<open>Maps in insertion order\<close>

lemma map_set_absent: "k \<notin> fst ` set m \<Longrightarrow> map_set k v m = m @ [(k, v)]"
  by (induction m) auto

lemma map_set_keys: "fst ` set (map_set k v m) = insert k (fst ` set m)"
  by (induction k v m rule: map_set.induct) (simp_all add: insert_commute)

lemma map_set_distinct: "distinct (map fst m) \<Longrightarrow> distinct (map fst (map_set k v m))"
  by (induction k v m rule: map_set.induct) (auto simp: map_set_keys)

lemma map_set_pairs: "p \<in> set (map_set k v m) \<Longrightarrow> p = (k, v) \<or> p \<in> set m"
  by (induction m) (auto split: if_splits)

lemma map_has_keys: "map_has m k \<longleftrightarrow> k \<in> fst ` set m"
  by (simp add: map_has_def map_of_eq_None_iff)

subsection \<open>Keyed usage maps\<close>

lemma keyed_map_set:
  assumes "keyed m" and "usage_key u = k"
  shows "keyed (map_set k u m)"
proof -
  have "fst p = usage_key (snd p)" if "p \<in> set (map_set k u m)" for p
    using map_set_pairs[OF that] assms by (auto simp: keyed_def list_all_iff)
  then show ?thesis
    using assms(1) by (simp add: keyed_def map_set_distinct list_all_iff)
qed

lemma keyed_lookup: "keyed m \<Longrightarrow> map_of m k = Some u \<Longrightarrow> usage_key u = k"
  by (auto simp: keyed_def list_all_iff dest!: map_of_SomeD)

lemma keyed_add_call: "keyed m \<Longrightarrow> keyed (add_call st m call)"
proof -
  assume m: "keyed m"
  show ?thesis
  proof (cases "resolveCallee (callee call) (bindings st) (namespacesAndDefaults st)")
    case None
    then show ?thesis using m by (simp add: add_call_def)
  next
    case (Some r)
    obtain pkg exportName kind where r: "r = (pkg, exportName, kind)" by (cases r)
    let ?key = "pkg @ [0x2F] @ exportName"
    let ?usage = "case map_of m ?key of Some u \<Rightarrow> u
        | None \<Rightarrow> \<lparr> u_package = pkg, u_export = exportName, u_importKind = kind, usageSites = [] \<rparr>"
    let ?site = "\<lparr> site_location = call_location call, site_argCount = Some (argCount call),
        site_argNames = (if length (argNames call) > 0 then Some (argNames call) else None) \<rparr>"
    let ?pushed = "?usage \<lparr> usageSites := usageSites ?usage @ [?site] \<rparr>"
    have "usage_key ?usage = ?key"
      using keyed_lookup[OF m, of ?key] by (auto simp: usage_key_def split: option.splits)
    then have uk: "usage_key ?pushed = ?key"
      by (simp add: usage_key_def)
    have "add_call st m call = map_set ?key ?pushed m"
      using Some r by (simp add: add_call_def Let_def)
    then show ?thesis
      using keyed_map_set[OF m uk] by simp
  qed
qed

lemma keyed_foldl_add_call: "keyed m \<Longrightarrow> keyed (foldl (add_call st) m calls)"
  by (induction calls arbitrary: m) (simp_all add: keyed_add_call)

lemma keyed_call_usages: "keyed (call_usages ast tracked)"
  unfolding call_usages_def by (rule keyed_foldl_add_call) (simp add: keyed_def)

lemma keyed_usages_of:
  "keyed m \<Longrightarrow> usages_of k (map snd m) = map snd (filter (\<lambda>p. fst p = k) m)"
  unfolding usages_of_def keyed_def
  by (induction m) auto

lemma keyed_keys: "keyed m \<Longrightarrow> usage_key ` set (map snd m) = fst ` set m"
  by (force simp: keyed_def list_all_iff)

lemma absent_filter_key: "k \<notin> fst ` set m \<Longrightarrow> filter (\<lambda>p. fst p = k) m = []"
  by (force simp: filter_empty_conv)

lemma distinct_filter_key:
  "distinct (map fst m) \<Longrightarrow> k \<in> fst ` set m \<Longrightarrow> length (filter (\<lambda>p. fst p = k) m) = 1"
proof (induction m)
  case Nil
  then show ?case by simp
next
  case (Cons p m)
  show ?case
  proof (cases "fst p = k")
    case True
    then have "k \<notin> fst ` set m" using Cons.prems(1) by simp
    then have "filter (\<lambda>q. fst q = k) m = []" by (rule absent_filter_key)
    then show ?thesis using True by simp
  next
    case False
    then show ?thesis using Cons by auto
  qed
qed

subsection \<open>Step 3\<close>

lemma usage_key_import_only: "usage_key (import_only_usage b) = binding_key b"
  by (simp add: usage_key_def import_only_usage_def binding_key_def)

lemma first_binding_Cons:
  "first_binding k (b # bs) = (if is_named b \<and> binding_key b = k then Some b else first_binding k bs)"
  by (simp add: first_binding_def)

lemma add_import_only_cases:
  "add_import_only m b =
     (if is_named b \<and> binding_key b \<notin> fst ` set m
      then m @ [(binding_key b, import_only_usage b)] else m)"
  by (auto simp: add_import_only_def is_named_def map_has_keys map_set_absent)

text \<open>The loop appends to the usage map, keeps it keyed, and gives a key that the map did not
  have the usage of the first named binding of that key.\<close>

lemma import_only_fold:
  assumes "keyed m"
  shows "keyed (foldl add_import_only m bs)
       \<and> (\<exists>added. foldl add_import_only m bs = m @ added)
       \<and> (\<forall>k. filter (\<lambda>p. fst p = k) (foldl add_import_only m bs) =
              (if k \<in> fst ` set m then filter (\<lambda>p. fst p = k) m
               else (case first_binding k bs of
                       None \<Rightarrow> []
                     | Some b \<Rightarrow> [(k, import_only_usage b)])))"
  using assms
proof (induction bs arbitrary: m)
  case Nil
  then show ?case by (simp add: first_binding_def absent_filter_key)
next
  case (Cons b bs)
  show ?case
  proof (cases "is_named b \<and> binding_key b \<notin> fst ` set m")
    case False
    then have same: "add_import_only m b = m" by (simp add: add_import_only_cases)
    have fb: "first_binding k (b # bs) = first_binding k bs" if "k \<notin> fst ` set m" for k
      using False that by (auto simp: first_binding_Cons)
    show ?thesis
      using Cons.IH[OF Cons.prems] fb by (simp add: same)
  next
    case True
    let ?kb = "binding_key b"
    let ?m' = "m @ [(?kb, import_only_usage b)]"
    have step: "add_import_only m b = ?m'" using True by (simp add: add_import_only_cases)
    have "map_set ?kb (import_only_usage b) m = ?m'" using True by (simp add: map_set_absent)
    then have k': "keyed ?m'"
      using keyed_map_set[OF Cons.prems usage_key_import_only, of b] by simp
    note ih = Cons.IH[OF k']
    have keys': "fst ` set ?m' = insert ?kb (fst ` set m)" by auto
    from ih obtain added where added: "foldl add_import_only ?m' bs = ?m' @ added" by blast
    have app: "\<exists>added. foldl add_import_only m (b # bs) = m @ added"
      using added by (simp add: step)
    have flt: "filter (\<lambda>p. fst p = k) (foldl add_import_only m (b # bs)) =
              (if k \<in> fst ` set m then filter (\<lambda>p. fst p = k) m
               else (case first_binding k (b # bs) of
                       None \<Rightarrow> []
                     | Some b \<Rightarrow> [(k, import_only_usage b)]))" for k
    proof -
      have f: "filter (\<lambda>p. fst p = k) (foldl add_import_only ?m' bs) =
              (if k \<in> fst ` set ?m' then filter (\<lambda>p. fst p = k) ?m'
               else (case first_binding k bs of
                       None \<Rightarrow> []
                     | Some b \<Rightarrow> [(k, import_only_usage b)]))"
        using ih by blast
      show ?thesis
      proof (cases "k \<in> fst ` set m")
        case in_m: True
        then have "k \<noteq> ?kb" using True by blast
        then show ?thesis using f in_m by (simp add: step)
      next
        case not_m: False
        show ?thesis
        proof (cases "k = ?kb")
          case True
          have "filter (\<lambda>p. fst p = ?kb) m = []" using not_m True by (simp add: absent_filter_key)
          then show ?thesis
            using f not_m True \<open>is_named b \<and> binding_key b \<notin> fst ` set m\<close>
            by (simp add: step first_binding_Cons)
        next
          case False
          then have "k \<notin> fst ` set ?m'" using not_m by auto
          then show ?thesis
            using f not_m False by (simp add: step first_binding_Cons del: set_append)
        qed
      qed
    qed
    have "keyed (foldl add_import_only m (b # bs))" using ih by (simp add: step)
    then show ?thesis using app flt by blast
  qed
qed

subsection \<open>The claim about import-only usages\<close>

text \<open>
  C8, as stated, on a file with two aliased imports of \<^verbatim>\<open>useState\<close> from \<^verbatim>\<open>react\<close>, on
  lines 1 and 2, and no call: the binding of line 2 is a named binding whose pair has no call
  site, so the claim gives a usage whose sole site carries the location of its import
  statement; the resolver returns one usage, with the location of line 1, and none with the
  location of line 2.
\<close>

theorem resolveImports_counterexample:
  "usages (resolveImports two_aliases None) = [import_only_usage (binding_at 1)]
   \<and> map snd (bindings (resolve_bindings two_aliases None)) = [binding_at 1, binding_at 2]
   \<and> is_named (binding_at 2)
   \<and> binding_key (binding_at 2) \<notin> usage_key ` set (map snd (call_usages two_aliases None))
   \<and> import_only_usage (binding_at 2) \<notin> set (usages (resolveImports two_aliases None))"
  by code_simp

text \<open>
  C8, amended: the usages \<^verbatim>\<open>resolveImports\<close> returns are the usages of the call sites, as
  they are, followed by import-only usages. For each named (non-default, non-namespace)
  binding, with pairs identified by the key \<^verbatim>\<open>package/export\<close>: when the key has call
  sites, the usages of the key are those of the call sites, exactly one; when it has none,
  there is exactly one usage of the key, and its sole site carries the location of the import
  statement of the first named binding of that key in the order of the binding map, which is
  the binding's own statement when no earlier binding has the same key.
\<close>

theorem import_only_usages:
  assumes "b \<in> set (map snd (bindings (resolve_bindings ast tracked)))"
    and "is_named b"
  shows "take (length (call_usages ast tracked)) (usages (resolveImports ast tracked))
           = map snd (call_usages ast tracked)
       \<and> (binding_key b \<in> usage_key ` set (map snd (call_usages ast tracked)) \<longrightarrow>
            usages_of (binding_key b) (usages (resolveImports ast tracked))
              = usages_of (binding_key b) (map snd (call_usages ast tracked))
            \<and> length (usages_of (binding_key b) (map snd (call_usages ast tracked))) = 1)
       \<and> (binding_key b \<notin> usage_key ` set (map snd (call_usages ast tracked)) \<longrightarrow>
            (\<exists>b'. first_binding (binding_key b)
                     (map snd (bindings (resolve_bindings ast tracked))) = Some b'
                 \<and> usages_of (binding_key b) (usages (resolveImports ast tracked))
                     = [import_only_usage b']))"
proof -
  let ?U = "call_usages ast tracked"
  let ?B = "map snd (bindings (resolve_bindings ast tracked))"
  let ?M = "foldl add_import_only ?U ?B"
  let ?k = "binding_key b"
  have R: "usages (resolveImports ast tracked) = map snd ?M"
    by (simp add: resolveImports_def Let_def)
  have kU: "keyed ?U" by (rule keyed_call_usages)
  note fold = import_only_fold[OF kU, of ?B]
  from fold have kM: "keyed ?M" by blast
  from fold obtain added where added: "?M = ?U @ added" by blast
  from fold have flt: "filter (\<lambda>p. fst p = ?k) ?M =
      (if ?k \<in> fst ` set ?U then filter (\<lambda>p. fst p = ?k) ?U
       else (case first_binding ?k ?B of None \<Rightarrow> [] | Some b \<Rightarrow> [(?k, import_only_usage b)]))"
    by blast
  have keys: "usage_key ` set (map snd ?U) = fst ` set ?U" by (rule keyed_keys[OF kU])
  have prefix: "take (length ?U) (usages (resolveImports ast tracked)) = map snd ?U"
    unfolding R added by simp
  have called: "usages_of ?k (usages (resolveImports ast tracked)) = usages_of ?k (map snd ?U)
      \<and> length (usages_of ?k (map snd ?U)) = 1"
    if "?k \<in> usage_key ` set (map snd ?U)"
  proof -
    have inU: "?k \<in> fst ` set ?U" using that keys by simp
    have "distinct (map fst ?U)" using kU by (simp add: keyed_def)
    then have "length (filter (\<lambda>p. fst p = ?k) ?U) = 1" using inU by (rule distinct_filter_key)
    then show ?thesis
      using flt inU by (simp add: R keyed_usages_of[OF kM] keyed_usages_of[OF kU])
  qed
  have uncalled: "\<exists>b'. first_binding ?k ?B = Some b'
      \<and> usages_of ?k (usages (resolveImports ast tracked)) = [import_only_usage b']"
    if "?k \<notin> usage_key ` set (map snd ?U)"
  proof -
    have notU: "?k \<notin> fst ` set ?U" using that keys by simp
    have "find (\<lambda>x. is_named x \<and> binding_key x = ?k) ?B \<noteq> None"
      using assms by (auto simp: find_None_iff)
    then obtain b' where b': "first_binding ?k ?B = Some b'"
      by (auto simp: first_binding_def)
    then have "filter (\<lambda>p. fst p = ?k) ?M = [(?k, import_only_usage b')]"
      using flt notU by simp
    then show ?thesis using b' by (simp add: R keyed_usages_of[OF kM])
  qed
  show ?thesis using prefix called uncalled by blast
qed

theorem import_only_usages_witness:
  "binding_at 2 \<in> set (map snd (bindings (resolve_bindings two_aliases None)))
   \<and> is_named (binding_at 2)
   \<and> binding_key (binding_at 2) \<notin> usage_key ` set (map snd (call_usages two_aliases None))
   \<and> first_binding (binding_key (binding_at 2))
        (map snd (bindings (resolve_bindings two_aliases None))) = Some (binding_at 1)
   \<and> usages_of (binding_key (binding_at 2)) (usages (resolveImports two_aliases None))
        = [import_only_usage (binding_at 1)]
   \<and> binding_at 1 \<in> set (map snd (bindings (resolve_bindings one_call None)))
   \<and> is_named (binding_at 1)
   \<and> binding_key (binding_at 1) \<in> usage_key ` set (map snd (call_usages one_call None))
   \<and> usages_of (binding_key (binding_at 1)) (usages (resolveImports one_call None))
        = usages_of (binding_key (binding_at 1)) (map snd (call_usages one_call None))
   \<and> usages (resolveImports one_call None) = [call_usage]"
proof -
  have m2: "binding_at 2 \<in> set (map snd (bindings (resolve_bindings two_aliases None)))"
    by code_simp
  have n2: "is_named (binding_at 2)" by code_simp
  have k2: "binding_key (binding_at 2) \<notin> usage_key ` set (map snd (call_usages two_aliases None))"
    by code_simp
  have f2: "first_binding (binding_key (binding_at 2))
        (map snd (bindings (resolve_bindings two_aliases None))) = Some (binding_at 1)"
    by code_simp
  have m1: "binding_at 1 \<in> set (map snd (bindings (resolve_bindings one_call None)))"
    by code_simp
  have n1: "is_named (binding_at 1)" by code_simp
  have k1: "binding_key (binding_at 1) \<in> usage_key ` set (map snd (call_usages one_call None))"
    by code_simp
  have r1: "usages (resolveImports one_call None) = [call_usage]" by code_simp
  from import_only_usages[OF m2 n2] k2 f2
  have w2: "usages_of (binding_key (binding_at 2)) (usages (resolveImports two_aliases None))
        = [import_only_usage (binding_at 1)]"
    by auto
  from import_only_usages[OF m1 n1] k1
  have w1: "usages_of (binding_key (binding_at 1)) (usages (resolveImports one_call None))
        = usages_of (binding_key (binding_at 1)) (map snd (call_usages one_call None))"
    by blast
  show ?thesis
    using m2 n2 k2 f2 w2 m1 n1 k1 w1 r1 by (simp only: simp_thms)
qed

end
